theory Spec2Isabelle
  imports Main "HOL-Library.Word"
begin

unbundle bit_operations_syntax

section \<open>The ptrace core of libdebug: data model\<close>

text \<open>
  The development embeds \<^verbatim>\<open>src/libdebug/cffi/ptrace_cffi_source.c\<close>. C \<^verbatim>\<open>int\<close> is a
  32-bit word (compared with the signed order where the code compares), \<^verbatim>\<open>uint64_t\<close>
  and the \<^verbatim>\<open>long\<close> returned by \<^verbatim>\<open>ptrace\<close> are 64-bit words. The two intrusive
  singly-linked lists rooted in \<^verbatim>\<open>t_HEAD\<close> and \<^verbatim>\<open>b_HEAD\<close> are HOL lists, head first:
  pushing a node at the head is \<open>#\<close>, following \<^verbatim>\<open>next\<close> is the tail.
\<close>

type_synonym c_int = "32 word"
type_synonym c_long = "64 word"
type_synonym u64 = "64 word"

text \<open>\<^verbatim>\<open>struct software_breakpoint\<close>; the \<^verbatim>\<open>char enabled\<close> only ever holds 0 or 1.\<close>

record software_breakpoint =
  addr :: u64
  instruction :: u64
  patched_instruction :: u64
  enabled :: bool

text \<open>\<^verbatim>\<open>struct thread\<close>; the register block \<^verbatim>\<open>struct user_regs_struct\<close> is opaque (\<open>'r\<close>).\<close>

record 'r thread =
  tid :: c_int
  regs :: 'r

text \<open>\<^verbatim>\<open>struct thread_status\<close>.\<close>

record thread_status =
  st_tid :: c_int
  status :: c_int

subsection \<open>The kernel seen through ptrace, waitpid and tgkill\<close>

text \<open>
  Every request the code sends to the kernel is logged, in the order it is sent. A
  \<open>SingleStep\<close> entry also keeps the value \<^verbatim>\<open>ptrace\<close> returned, and a \<open>Waitpid\<close> entry
  what the kernel answered: the returned pid and the status it stored, if it stored one.
\<close>

datatype 'r request =
    SetRegs c_int 'r
  | GetRegs c_int
  | SingleStep c_int c_long
  | Continue c_int
  | PeekData c_int u64
  | PokeData c_int u64 u64
  | Waitpid c_int c_int c_int "c_int option"
  | Tgkill c_int c_int c_int

text \<open>
  The kernel is a parameter: a state \<open>'k\<close> and one transition per request, so that every
  theorem holds for every behaviour of the tracee. \<open>k_getregs\<close> answers \<open>None\<close> when
  \<^verbatim>\<open>PTRACE_GETREGS\<close> returns -1 (the buffer is then left as it was); \<open>k_waitpid\<close>
  answers the returned pid and the status word it wrote, \<open>None\<close> when it wrote none;
  \<open>k_uninit\<close> and \<open>k_uninit_regs\<close> are the content of an \<^verbatim>\<open>int\<close> and of a register block
  that the code reads before anything was written there.
\<close>

record ('k, 'r) kernel =
  k_setregs :: "c_int \<Rightarrow> 'r \<Rightarrow> 'k \<Rightarrow> c_long \<times> 'k"
  k_getregs :: "c_int \<Rightarrow> 'k \<Rightarrow> 'r option \<times> 'k"
  k_singlestep :: "c_int \<Rightarrow> 'k \<Rightarrow> c_long \<times> 'k"
  k_cont :: "c_int \<Rightarrow> 'k \<Rightarrow> c_long \<times> 'k"
  k_waitpid :: "c_int \<Rightarrow> c_int \<Rightarrow> 'k \<Rightarrow> (c_int \<times> c_int option) \<times> 'k"
  k_tgkill :: "c_int \<Rightarrow> c_int \<Rightarrow> c_int \<Rightarrow> 'k \<Rightarrow> 'k"
  k_uninit :: "'k \<Rightarrow> c_int"
  k_uninit_regs :: "'k \<Rightarrow> 'r"

text \<open>
  Tracee memory is an array of bytes. \<^verbatim>\<open>PTRACE_PEEKDATA\<close> at address \<open>a\<close> reads the eight
  bytes \<open>a\<close> to \<open>a + 7\<close> as one word and \<^verbatim>\<open>PTRACE_POKEDATA\<close> writes them, the byte at
  the lowest address being the least significant (amd64): the words at two addresses
  less than eight apart share bytes.
\<close>

definition load_word :: "(u64 \<Rightarrow> 8 word) \<Rightarrow> u64 \<Rightarrow> u64" where
  "load_word m a =
     ucast (m a) OR push_bit 8 (ucast (m (a + 1))) OR push_bit 16 (ucast (m (a + 2))) OR
     push_bit 24 (ucast (m (a + 3))) OR push_bit 32 (ucast (m (a + 4))) OR
     push_bit 40 (ucast (m (a + 5))) OR push_bit 48 (ucast (m (a + 6))) OR
     push_bit 56 (ucast (m (a + 7)))"

definition store_word :: "(u64 \<Rightarrow> 8 word) \<Rightarrow> u64 \<Rightarrow> u64 \<Rightarrow> u64 \<Rightarrow> 8 word" where
  "store_word m a d =
     (\<lambda>x. if x - a < 8 then ucast (drop_bit (8 * unat (x - a)) d) else m x)"

text \<open>
  The state of the tracer and of what it observes: the two global lists, the tracee's
  memory, the kernel state and the log of requests. Memory is changed by
  \<^verbatim>\<open>PTRACE_POKEDATA\<close> and by nothing else, and both memory requests succeed. Not
  modelled: a failing \<^verbatim>\<open>malloc\<close>, and what the code prints on \<^verbatim>\<open>stderr\<close>.
\<close>

record ('k, 'r) world =
  t_HEAD :: "'r thread list"
  b_HEAD :: "software_breakpoint list"
  memory :: "u64 \<Rightarrow> 8 word"
  kern :: 'k
  trace :: "'r request list"

definition ptrace_setregs ::
  "('k, 'r) kernel \<Rightarrow> c_int \<Rightarrow> 'r \<Rightarrow> ('k, 'r) world \<Rightarrow> c_long \<times> ('k, 'r) world" where
  "ptrace_setregs K t r w =
     (case k_setregs K t r (kern w) of
        (rc, k) \<Rightarrow> (rc, w\<lparr>kern := k, trace := trace w @ [SetRegs t r]\<rparr>))"

definition ptrace_getregs ::
  "('k, 'r) kernel \<Rightarrow> c_int \<Rightarrow> ('k, 'r) world \<Rightarrow> 'r option \<times> ('k, 'r) world" where
  "ptrace_getregs K t w =
     (case k_getregs K t (kern w) of
        (r, k) \<Rightarrow> (r, w\<lparr>kern := k, trace := trace w @ [GetRegs t]\<rparr>))"

definition ptrace_singlestep ::
  "('k, 'r) kernel \<Rightarrow> c_int \<Rightarrow> ('k, 'r) world \<Rightarrow> c_long \<times> ('k, 'r) world" where
  "ptrace_singlestep K t w =
     (case k_singlestep K t (kern w) of
        (rc, k) \<Rightarrow> (rc, w\<lparr>kern := k, trace := trace w @ [SingleStep t rc]\<rparr>))"

definition ptrace_cont ::
  "('k, 'r) kernel \<Rightarrow> c_int \<Rightarrow> ('k, 'r) world \<Rightarrow> c_long \<times> ('k, 'r) world" where
  "ptrace_cont K t w =
     (case k_cont K t (kern w) of
        (rc, k) \<Rightarrow> (rc, w\<lparr>kern := k, trace := trace w @ [Continue t]\<rparr>))"

definition waitpid ::
  "('k, 'r) kernel \<Rightarrow> c_int \<Rightarrow> c_int \<Rightarrow> ('k, 'r) world
     \<Rightarrow> (c_int \<times> c_int option) \<times> ('k, 'r) world" where
  "waitpid K p opts w =
     (case k_waitpid K p opts (kern w) of
        ((r, st), k) \<Rightarrow> ((r, st), w\<lparr>kern := k, trace := trace w @ [Waitpid p opts r st]\<rparr>))"

definition tgkill ::
  "('k, 'r) kernel \<Rightarrow> c_int \<Rightarrow> c_int \<Rightarrow> c_int \<Rightarrow> ('k, 'r) world \<Rightarrow> ('k, 'r) world" where
  "tgkill K p t sig w =
     w\<lparr>kern := k_tgkill K p t sig (kern w), trace := trace w @ [Tgkill p t sig]\<rparr>"

text \<open>
  \<open>peekdata\<close> and \<open>pokedata\<close> are \<^verbatim>\<open>ptrace(PTRACE_PEEKDATA, ...)\<close> and
  \<^verbatim>\<open>ptrace(PTRACE_POKEDATA, ...)\<close> as the breakpoint table and the engine call them;
  the code never looks at what the latter returns.
\<close>

definition peekdata :: "c_int \<Rightarrow> u64 \<Rightarrow> ('k, 'r) world \<Rightarrow> u64 \<times> ('k, 'r) world" where
  "peekdata p a w = (load_word (memory w) a, w\<lparr>trace := trace w @ [PeekData p a]\<rparr>)"

definition pokedata :: "c_int \<Rightarrow> u64 \<Rightarrow> u64 \<Rightarrow> ('k, 'r) world \<Rightarrow> ('k, 'r) world" where
  "pokedata p a d w =
     w\<lparr>memory := store_word (memory w) a d, trace := trace w @ [PokeData p a d]\<rparr>"

text \<open>
  The wrappers \<^verbatim>\<open>ptrace_peekdata\<close>, lines 121-128, and \<^verbatim>\<open>ptrace_pokedata\<close>, lines
  130-133, hand the result of the request to the caller (\<^verbatim>\<open>errno\<close> is not modelled).
\<close>

definition ptrace_peekdata :: "c_int \<Rightarrow> u64 \<Rightarrow> ('k, 'r) world \<Rightarrow> u64 \<times> ('k, 'r) world" where
  "ptrace_peekdata p a w = peekdata p a w"

definition ptrace_pokedata ::
  "c_int \<Rightarrow> u64 \<Rightarrow> u64 \<Rightarrow> ('k, 'r) world \<Rightarrow> u64 \<times> ('k, 'r) world" where
  "ptrace_pokedata p a d w = (0, pokedata p a d w)"

text \<open>What a status buffer holds after a \<^verbatim>\<open>waitpid\<close> that may not have written it.\<close>

definition stored :: "c_int option \<Rightarrow> c_int \<Rightarrow> c_int" where
  "stored st old = (case st of None \<Rightarrow> old | Some s \<Rightarrow> s)"

definition stored_regs :: "'r option \<Rightarrow> 'r \<Rightarrow> 'r" where
  "stored_regs r old = (case r of None \<Rightarrow> old | Some x \<Rightarrow> x)"

definition WALL :: c_int where "WALL = 0x40000000"
definition WNOHANG :: c_int where "WNOHANG = 1"
definition SIGSTOP :: c_int where "SIGSTOP = 19"

section \<open>The breakpoint table\<close>

text \<open>
  \<^verbatim>\<open>register_breakpoint\<close>, lines 369-397. The macro \<^verbatim>\<open>INSTALL_BREAKPOINT\<close> is supplied
  per architecture when the module is built and is not part of the file; it is the
  parameter \<open>IB\<close>. The search loop sets \<^verbatim>\<open>enabled\<close> on the first record whose address
  matches and reports whether it found one.
\<close>

fun enable_first :: "u64 \<Rightarrow> software_breakpoint list \<Rightarrow> software_breakpoint list option" where
  "enable_first a [] = None"
| "enable_first a (b # bs) =
     (if addr b = a then Some (b\<lparr>enabled := True\<rparr> # bs)
      else map_option ((#) b) (enable_first a bs))"

definition register_breakpoint ::
  "(u64 \<Rightarrow> u64) \<Rightarrow> c_int \<Rightarrow> u64 \<Rightarrow> ('k, 'r) world \<Rightarrow> ('k, 'r) world" where
  "register_breakpoint IB p address w =
     (case peekdata p address w of
        (instr, w1) \<Rightarrow>
          let patched = IB instr;
              w2 = pokedata p address patched w1
          in case enable_first address (b_HEAD w2) of
               Some bs \<Rightarrow> w2\<lparr>b_HEAD := bs\<rparr>
             | None \<Rightarrow>
                 w2\<lparr>b_HEAD := \<lparr>addr = address, instruction = instr,
                                patched_instruction = patched, enabled = True\<rparr> # b_HEAD w2\<rparr>)"

text \<open>\<^verbatim>\<open>unregister_breakpoint\<close>, lines 399-417: unlink the first record at the address.\<close>

fun unlink_bp :: "u64 \<Rightarrow> software_breakpoint list \<Rightarrow> software_breakpoint list" where
  "unlink_bp a [] = []"
| "unlink_bp a (b # bs) = (if addr b = a then bs else b # unlink_bp a bs)"

definition unregister_breakpoint :: "u64 \<Rightarrow> ('k, 'r) world \<Rightarrow> ('k, 'r) world" where
  "unregister_breakpoint address w = w\<lparr>b_HEAD := unlink_bp address (b_HEAD w)\<rparr>"

text \<open>
  \<^verbatim>\<open>disable_breakpoint\<close>, lines 419-431: at the first record whose address matches, clear
  \<^verbatim>\<open>enabled\<close>, poke the record's \<^verbatim>\<open>patched_instruction\<close> and return. The function
  below walks the list and gives back the new list together with the word to poke.
\<close>

fun disable_first ::
  "u64 \<Rightarrow> software_breakpoint list \<Rightarrow> (software_breakpoint list \<times> u64 \<times> u64) option" where
  "disable_first a [] = None"
| "disable_first a (b # bs) =
     (if addr b = a then Some (b\<lparr>enabled := False\<rparr> # bs, addr b, patched_instruction b)
      else map_option (\<lambda>(bs', x). (b # bs', x)) (disable_first a bs))"

definition disable_breakpoint :: "c_int \<Rightarrow> u64 \<Rightarrow> ('k, 'r) world \<Rightarrow> ('k, 'r) world" where
  "disable_breakpoint p address w =
     (case disable_first address (b_HEAD w) of
        None \<Rightarrow> w
      | Some (bs, a, d) \<Rightarrow> pokedata p a d (w\<lparr>b_HEAD := bs\<rparr>))"

text \<open>\<^verbatim>\<open>free_breakpoints\<close>, lines 433-445.\<close>

definition free_breakpoints :: "('k, 'r) world \<Rightarrow> ('k, 'r) world" where
  "free_breakpoints w = w\<lparr>b_HEAD := []\<rparr>"

section \<open>The thread table\<close>

text \<open>
  \<^verbatim>\<open>register_thread\<close>, lines 42-60. The C function returns a pointer to the record's
  register block; the model returns the position of the record in the list together with
  the new state. A \<^verbatim>\<open>PTRACE_GETREGS\<close> that fails leaves the fresh block as allocated.
\<close>

fun find_thread :: "c_int \<Rightarrow> 'r thread list \<Rightarrow> nat \<Rightarrow> nat option" where
  "find_thread x [] i = None"
| "find_thread x (t # ts) i = (if tid t = x then Some i else find_thread x ts (Suc i))"

definition register_thread ::
  "('k, 'r) kernel \<Rightarrow> c_int \<Rightarrow> ('k, 'r) world \<Rightarrow> nat \<times> ('k, 'r) world" where
  "register_thread K x w =
     (case find_thread x (t_HEAD w) 0 of
        Some i \<Rightarrow> (i, w)
      | None \<Rightarrow>
          (case ptrace_getregs K x w of
             (r, w1) \<Rightarrow>
               (0, w1\<lparr>t_HEAD := \<lparr>tid = x, regs = stored_regs r (k_uninit_regs K (kern w))\<rparr>
                                  # t_HEAD w1\<rparr>)))"

text \<open>\<^verbatim>\<open>unregister_thread\<close>, lines 62-80, and \<^verbatim>\<open>free_thread_list\<close>, lines 82-94.\<close>

fun unlink_thread :: "c_int \<Rightarrow> 'r thread list \<Rightarrow> 'r thread list" where
  "unlink_thread x [] = []"
| "unlink_thread x (t # ts) = (if tid t = x then ts else t # unlink_thread x ts)"

definition unregister_thread :: "c_int \<Rightarrow> ('k, 'r) world \<Rightarrow> ('k, 'r) world" where
  "unregister_thread x w = w\<lparr>t_HEAD := unlink_thread x (t_HEAD w)\<rparr>"

definition free_thread_list :: "('k, 'r) world \<Rightarrow> ('k, 'r) world" where
  "free_thread_list w = w\<lparr>t_HEAD := []\<rparr>"

text \<open>Writing through a pointer to the \<open>i\<close>-th record's register block.\<close>

definition set_regs_at :: "nat \<Rightarrow> 'r \<Rightarrow> ('k, 'r) world \<Rightarrow> ('k, 'r) world" where
  "set_regs_at i r w =
     (if i < length (t_HEAD w) then w\<lparr>t_HEAD := (t_HEAD w)[i := (t_HEAD w ! i)\<lparr>regs := r\<rparr>]\<rparr>
      else w)"

text \<open>\<^verbatim>\<open>ptrace(PTRACE_GETREGS, t, NULL, &rec->regs)\<close> for the record at position \<open>i\<close>.\<close>

definition getregs_into ::
  "('k, 'r) kernel \<Rightarrow> c_int \<Rightarrow> nat \<Rightarrow> ('k, 'r) world \<Rightarrow> bool \<times> ('k, 'r) world" where
  "getregs_into K t i w =
     (case ptrace_getregs K t w of
        (None, w1) \<Rightarrow> (False, w1)
      | (Some r, w1) \<Rightarrow> (True, set_regs_at i r w1))"

section \<open>The run/stop engine\<close>

text \<open>
  The flush loop that opens \<^verbatim>\<open>singlestep\<close>, \<^verbatim>\<open>step_until\<close> and \<^verbatim>\<open>cont_all_and_set_bps\<close>.
  A failing \<^verbatim>\<open>PTRACE_SETREGS\<close> only prints a diagnostic on \<^verbatim>\<open>stderr\<close>, which the model
  does not keep.
\<close>

fun flush_regs :: "('k, 'r) kernel \<Rightarrow> 'r thread list \<Rightarrow> ('k, 'r) world \<Rightarrow> ('k, 'r) world" where
  "flush_regs K [] w = w"
| "flush_regs K (t # ts) w = flush_regs K ts (snd (ptrace_setregs K (tid t) (regs t) w))"

text \<open>\<^verbatim>\<open>singlestep\<close>, lines 158-169; the \<^verbatim>\<open>long\<close> of \<^verbatim>\<open>ptrace\<close> is returned as \<^verbatim>\<open>int\<close>.\<close>

definition singlestep ::
  "('k, 'r) kernel \<Rightarrow> c_int \<Rightarrow> ('k, 'r) world \<Rightarrow> c_int \<times> ('k, 'r) world" where
  "singlestep K x w =
     (case ptrace_singlestep K x (flush_regs K (t_HEAD w) w) of
        (rc, w1) \<Rightarrow> (ucast rc, w1))"

text \<open>
  \<^verbatim>\<open>step_until\<close>, lines 171-213. The first loop (175-182) flushes every record and
  remembers in \<^verbatim>\<open>stepping_thread\<close> the last record whose tid matches; \<open>i\<close> is the
  position of the record under \<^verbatim>\<open>t\<close>.
\<close>

fun flush_and_find ::
  "('k, 'r) kernel \<Rightarrow> c_int \<Rightarrow> 'r thread list \<Rightarrow> nat \<Rightarrow> nat option \<Rightarrow> ('k, 'r) world
     \<Rightarrow> nat option \<times> ('k, 'r) world" where
  "flush_and_find K x [] i stepping_thread w = (stepping_thread, w)"
| "flush_and_find K x (t # ts) i stepping_thread w =
     flush_and_find K x ts (Suc i)
       (if tid t = x then Some i else stepping_thread)
       (snd (ptrace_setregs K (tid t) (regs t) w))"

text \<open>
  The step loop, lines 192-210. The macro \<^verbatim>\<open>INSTRUCTION_POINTER\<close> is supplied per
  architecture and is the parameter \<open>IP\<close>. The loop may run forever, so the function is
  partial: \<open>None\<close> is a call that never returns. Beside the value that \<^verbatim>\<open>step_until\<close>
  returns, the loop hands back the final \<^verbatim>\<open>count\<close>. The \<^verbatim>\<open>status\<close> written by
  \<^verbatim>\<open>waitpid\<close> is never read.
\<close>

partial_function (option) step_until_loop ::
  "('k, 'r) kernel \<Rightarrow> ('r \<Rightarrow> u64) \<Rightarrow> c_int \<Rightarrow> nat \<Rightarrow> u64 \<Rightarrow> c_int \<Rightarrow> c_int \<Rightarrow> ('k, 'r) world
     \<Rightarrow> (c_int \<times> c_int \<times> ('k, 'r) world) option" where
  "step_until_loop K IP x i address max_steps count w =
     (if max_steps = - 1 \<or> count <s max_steps then
        (case ptrace_singlestep K x w of
           (rc, w1) \<Rightarrow>
             if rc \<noteq> 0 then Some (- 1, count, w1)
             else
               let w2 = snd (waitpid K x 0 w1);
                   previous_ip = IP (regs (t_HEAD w2 ! i));
                   w3 = snd (getregs_into K x i w2)
               in if IP (regs (t_HEAD w3 ! i)) = address then Some (0, count, w3)
                  else if IP (regs (t_HEAD w3 ! i)) = previous_ip
                  then step_until_loop K IP x i address max_steps count w3
                  else step_until_loop K IP x i address max_steps (count + 1) w3)
      else Some (0, count, w))"

declare step_until_loop.simps [code]

definition step_until ::
  "('k, 'r) kernel \<Rightarrow> ('r \<Rightarrow> u64) \<Rightarrow> c_int \<Rightarrow> u64 \<Rightarrow> c_int \<Rightarrow> ('k, 'r) world
     \<Rightarrow> (c_int \<times> ('k, 'r) world) option" where
  "step_until K IP x address max_steps w =
     (case flush_and_find K x (t_HEAD w) 0 None w of
        (None, w1) \<Rightarrow> Some (- 1, w1)
      | (Some i, w1) \<Rightarrow>
          map_option (\<lambda>(rc, count, w2). (rc, w2))
            (step_until_loop K IP x i address max_steps 0 w1))"

text \<open>
  \<^verbatim>\<open>cont_all_and_set_bps\<close>, lines 215-285. The inner loop (239-245) looks for a record
  at the thread's instruction pointer, enabled or not.
\<close>

fun bp_at :: "u64 \<Rightarrow> software_breakpoint list \<Rightarrow> bool" where
  "bp_at ip [] = False"
| "bp_at ip (b # bs) = (if addr b = ip then True else bp_at ip bs)"

text \<open>
  The step-over loop, lines 234-263. \<open>Inl\<close> is the \<^verbatim>\<open>return -1\<close> of line 249; \<open>Inr\<close>
  carries the \<^verbatim>\<open>status\<close> variable out of the loop. The magic number 4991 is a stop
  by \<^verbatim>\<open>SIGSTOP\<close>.
\<close>

fun step_over_bps ::
  "('k, 'r) kernel \<Rightarrow> ('r \<Rightarrow> u64) \<Rightarrow> 'r thread list \<Rightarrow> software_breakpoint list \<Rightarrow> c_int
     \<Rightarrow> ('k, 'r) world \<Rightarrow> ('k, 'r) world + c_int \<times> ('k, 'r) world" where
  "step_over_bps K IP [] bs st w = Inr (st, w)"
| "step_over_bps K IP (t # ts) bs st w =
     (if bp_at (IP (regs t)) bs then
        (case ptrace_singlestep K (tid t) w of
           (rc, w1) \<Rightarrow>
             if rc \<noteq> 0 then Inl w1
             else
               (case waitpid K (tid t) 0 w1 of
                  ((r, s), w2) \<Rightarrow>
                    if stored s st = 4991 then
                      (case waitpid K (tid t) 0 (snd (ptrace_singlestep K (tid t) w2)) of
                         ((r', s'), w4) \<Rightarrow> step_over_bps K IP ts bs (stored s' (stored s st)) w4)
                    else step_over_bps K IP ts bs (stored s st) w2))
      else step_over_bps K IP ts bs st w)"

text \<open>Lines 265-273: poke the patched word of every enabled record.\<close>

fun set_bps :: "c_int \<Rightarrow> software_breakpoint list \<Rightarrow> ('k, 'r) world \<Rightarrow> ('k, 'r) world" where
  "set_bps p [] w = w"
| "set_bps p (b # bs) w =
     set_bps p bs (if enabled b then pokedata p (addr b) (patched_instruction b) w else w)"

text \<open>Lines 275-282: continue every thread; a failure is only reported on \<^verbatim>\<open>stderr\<close>.\<close>

fun cont_threads :: "('k, 'r) kernel \<Rightarrow> 'r thread list \<Rightarrow> ('k, 'r) world \<Rightarrow> ('k, 'r) world" where
  "cont_threads K [] w = w"
| "cont_threads K (t # ts) w = cont_threads K ts (snd (ptrace_cont K (tid t) w))"

definition cont_all_and_set_bps ::
  "('k, 'r) kernel \<Rightarrow> ('r \<Rightarrow> u64) \<Rightarrow> c_int \<Rightarrow> ('k, 'r) world \<Rightarrow> c_int \<times> ('k, 'r) world" where
  "cont_all_and_set_bps K IP p w =
     (let w1 = flush_regs K (t_HEAD w) w in
      case step_over_bps K IP (t_HEAD w1) (b_HEAD w1) 0 w1 of
        Inl w2 \<Rightarrow> (- 1, w2)
      | Inr (st, w2) \<Rightarrow> (st, cont_threads K (t_HEAD w2) (set_bps p (b_HEAD w2) w2)))"

text \<open>
  \<^verbatim>\<open>wait_all_and_update_regs\<close>, lines 287-356. The status list is a HOL list whose first
  element is the node under \<^verbatim>\<open>head\<close>. The probe loop, lines 305-327, compares each tid
  with the tid of the node that is under \<^verbatim>\<open>head\<close> at that moment; \<open>i\<close> is the position
  of the record under \<^verbatim>\<open>t\<close>, \<open>tmp\<close> is \<^verbatim>\<open>temp_status\<close>. The list is never empty there.
\<close>

fun stop_others ::
  "('k, 'r) kernel \<Rightarrow> c_int \<Rightarrow> 'r thread list \<Rightarrow> nat \<Rightarrow> thread_status list \<Rightarrow> c_int
     \<Rightarrow> ('k, 'r) world \<Rightarrow> thread_status list \<times> c_int \<times> ('k, 'r) world" where
  "stop_others K p [] i hd_list tmp w = (hd_list, tmp, w)"
| "stop_others K p (t # ts) i [] tmp w = ([], tmp, w)"
| "stop_others K p (t # ts) i (h # hs) tmp w =
     (if tid t \<noteq> st_tid h then
        (case getregs_into K (tid t) i w of
           (True, w1) \<Rightarrow> stop_others K p ts (Suc i) (h # hs) tmp w1
         | (False, w1) \<Rightarrow>
             (case waitpid K (tid t) 0 (tgkill K p (tid t) SIGSTOP w1) of
                ((temp_tid, s), w3) \<Rightarrow>
                  stop_others K p ts (Suc i)
                    (\<lparr>st_tid = temp_tid, status = stored s tmp\<rparr> # h # hs) (stored s tmp) w3))
      else stop_others K p ts (Suc i) (h # hs) tmp w)"

text \<open>
  The drain loop, lines 330-336. It stops at the first \<^verbatim>\<open>waitpid\<close> that returns no
  positive pid, which may never happen: \<open>None\<close> is a loop that never ends.
\<close>

partial_function (option) drain ::
  "('k, 'r) kernel \<Rightarrow> thread_status list \<Rightarrow> c_int \<Rightarrow> ('k, 'r) world
     \<Rightarrow> (thread_status list \<times> ('k, 'r) world) option" where
  "drain K hd_list tmp w =
     (case waitpid K (- 1) (WNOHANG OR WALL) w of
        ((temp_tid, s), w1) \<Rightarrow>
          if 0 <s temp_tid
          then drain K (\<lparr>st_tid = temp_tid, status = stored s tmp\<rparr> # hd_list) (stored s tmp) w1
          else Some (hd_list, w1))"

declare drain.simps [code]

text \<open>Lines 339-343: refresh every record's registers.\<close>

fun update_regs ::
  "('k, 'r) kernel \<Rightarrow> 'r thread list \<Rightarrow> nat \<Rightarrow> ('k, 'r) world \<Rightarrow> ('k, 'r) world" where
  "update_regs K [] i w = w"
| "update_regs K (t # ts) i w = update_regs K ts (Suc i) (snd (getregs_into K (tid t) i w))"

text \<open>Lines 346-353: poke the original word of every enabled record.\<close>

fun restore_bps :: "c_int \<Rightarrow> software_breakpoint list \<Rightarrow> ('k, 'r) world \<Rightarrow> ('k, 'r) world" where
  "restore_bps p [] w = w"
| "restore_bps p (b # bs) w =
     restore_bps p bs (if enabled b then pokedata p (addr b) (instruction b) w else w)"

text \<open>
  The result is \<open>None\<close> when the call never returns, \<open>Some (None, _)\<close> when it returns
  \<^verbatim>\<open>NULL\<close>, \<open>Some (Some l, _)\<close> when it returns the list \<open>l\<close>.
\<close>

definition wait_all_and_update_regs ::
  "('k, 'r) kernel \<Rightarrow> c_int \<Rightarrow> ('k, 'r) world
     \<Rightarrow> (thread_status list option \<times> ('k, 'r) world) option" where
  "wait_all_and_update_regs K p w =
     (case waitpid K (- 1) WALL w of
        ((head_tid, s), w1) \<Rightarrow>
          if head_tid = - 1 then Some (None, w1)
          else
            (case stop_others K p (t_HEAD w1) 0
                    [\<lparr>st_tid = head_tid, status = stored s (k_uninit K (kern w))\<rparr>]
                    (k_uninit K (kern w1)) w1 of
               (hd_list, tmp, w2) \<Rightarrow>
                 (case drain K hd_list tmp w2 of
                    None \<Rightarrow> None
                  | Some (hd_list', w3) \<Rightarrow>
                      Some (Some hd_list',
                            restore_bps p (b_HEAD w3) (update_regs K (t_HEAD w3) 0 w3)))))"

section \<open>Sequences of calls\<close>

text \<open>
  The calls a debugger makes through the two tables, the engine and the two memory
  wrappers, and the state after a sequence of them, started anywhere. A call that never
  returns ends the sequence.
\<close>

datatype call =
    Register_thread c_int
  | Unregister_thread c_int
  | Register_breakpoint c_int u64
  | Unregister_breakpoint u64
  | Disable_breakpoint c_int u64
  | Ptrace_peekdata c_int u64
  | Ptrace_pokedata c_int u64 u64
  | Singlestep c_int
  | Step_until c_int u64 c_int
  | Cont_all_and_set_bps c_int
  | Wait_all_and_update_regs c_int

fun do_call ::
  "('k, 'r) kernel \<Rightarrow> ('r \<Rightarrow> u64) \<Rightarrow> (u64 \<Rightarrow> u64) \<Rightarrow> call \<Rightarrow> ('k, 'r) world
     \<Rightarrow> ('k, 'r) world option" where
  "do_call K IP IB (Register_thread x) w = Some (snd (register_thread K x w))"
| "do_call K IP IB (Unregister_thread x) w = Some (unregister_thread x w)"
| "do_call K IP IB (Register_breakpoint p a) w = Some (register_breakpoint IB p a w)"
| "do_call K IP IB (Unregister_breakpoint a) w = Some (unregister_breakpoint a w)"
| "do_call K IP IB (Disable_breakpoint p a) w = Some (disable_breakpoint p a w)"
| "do_call K IP IB (Ptrace_peekdata p a) w = Some (snd (ptrace_peekdata p a w))"
| "do_call K IP IB (Ptrace_pokedata p a d) w = Some (snd (ptrace_pokedata p a d w))"
| "do_call K IP IB (Singlestep x) w = Some (snd (singlestep K x w))"
| "do_call K IP IB (Step_until x a n) w = map_option snd (step_until K IP x a n w)"
| "do_call K IP IB (Cont_all_and_set_bps p) w = Some (snd (cont_all_and_set_bps K IP p w))"
| "do_call K IP IB (Wait_all_and_update_regs p) w =
     map_option snd (wait_all_and_update_regs K p w)"

fun do_calls ::
  "('k, 'r) kernel \<Rightarrow> ('r \<Rightarrow> u64) \<Rightarrow> (u64 \<Rightarrow> u64) \<Rightarrow> call list \<Rightarrow> ('k, 'r) world
     \<Rightarrow> ('k, 'r) world option" where
  "do_calls K IP IB [] w = Some w"
| "do_calls K IP IB (c # cs) w =
     (case do_call K IP IB c w of None \<Rightarrow> None | Some w1 \<Rightarrow> do_calls K IP IB cs w1)"

section \<open>Notions used to state the properties\<close>

text \<open>
  The state after one pass through lines 193-201 of \<^verbatim>\<open>step_until\<close> whose
  \<^verbatim>\<open>PTRACE_SINGLESTEP\<close> succeeded: single-step, wait, read the registers back.
\<close>

definition after_step :: "('k, 'r) kernel \<Rightarrow> c_int \<Rightarrow> nat \<Rightarrow> ('k, 'r) world \<Rightarrow> ('k, 'r) world" where
  "after_step K x i w =
     snd (getregs_into K x i (snd (waitpid K x 0 (snd (ptrace_singlestep K x w)))))"

text \<open>The requests a call has sent: what it appended to the log.\<close>

definition sent :: "('k, 'r) world \<Rightarrow> ('k, 'r) world \<Rightarrow> 'r request list" where
  "sent w w' = drop (length (trace w)) (trace w')"

fun is_wait :: "'r request \<Rightarrow> bool" where
  "is_wait (Waitpid p opts r s) = True"
| "is_wait _ = False"

fun is_poke :: "'r request \<Rightarrow> bool" where
  "is_poke (PokeData p a d) = True"
| "is_poke _ = False"

fun is_singlestep :: "'r request \<Rightarrow> bool" where
  "is_singlestep (SingleStep t rc) = True"
| "is_singlestep _ = False"

text \<open>
  A node of the status list reports a logged \<^verbatim>\<open>waitpid\<close>: it carries the pid that call
  returned and, when the kernel stored a status, that status.
\<close>

fun reports :: "thread_status \<Rightarrow> 'r request \<Rightarrow> bool" where
  "reports n (Waitpid p opts r s) =
     (st_tid n = r \<and> (case s of None \<Rightarrow> True | Some v \<Rightarrow> status n = v))"
| "reports n _ = False"

text \<open>
  The requests of the three phases of \<^verbatim>\<open>wait_all_and_update_regs\<close> that collect
  events: the probe loop sends \<^verbatim>\<open>PTRACE_GETREGS\<close>, \<^verbatim>\<open>SIGSTOP\<close> and a blocking
  \<^verbatim>\<open>waitpid\<close> on one thread; the drain loop sends non-blocking \<^verbatim>\<open>waitpid(-1)\<close>,
  and ends at the first that returns no positive pid.
\<close>

fun probe_request :: "'r request \<Rightarrow> bool" where
  "probe_request (GetRegs t) = True"
| "probe_request (Tgkill p t sig) = (sig = SIGSTOP)"
| "probe_request (Waitpid p opts r s) = (opts = 0)"
| "probe_request _ = False"

fun drain_request :: "'r request \<Rightarrow> bool" where
  "drain_request (Waitpid p opts r s) = (p = - 1 \<and> opts = WNOHANG OR WALL \<and> 0 <s r)"
| "drain_request _ = False"

fun drain_end :: "'r request \<Rightarrow> bool" where
  "drain_end (Waitpid p opts r s) = (p = - 1 \<and> opts = WNOHANG OR WALL \<and> \<not> 0 <s r)"
| "drain_end _ = False"










text \<open>
  The tracee-memory word at an address, and two addresses whose words share no byte.
\<close>

definition word_at :: "u64 \<Rightarrow> ('k, 'r) world \<Rightarrow> u64" where
  "word_at a w = load_word (memory w) a"

definition apart :: "u64 \<Rightarrow> u64 \<Rightarrow> bool" where
  "apart a b \<longleftrightarrow> 8 \<le> b - a \<and> 8 \<le> a - b"

text \<open>There is one record at address \<open>A\<close>, and it holds \<open>v\<close> and the trap made of \<open>v\<close>.\<close>

definition the_record :: "(u64 \<Rightarrow> u64) \<Rightarrow> u64 \<Rightarrow> u64 \<Rightarrow> software_breakpoint list \<Rightarrow> bool" where
  "the_record IB A v bs \<longleftrightarrow>
     (\<exists>en. filter (\<lambda>b. addr b = A) bs =
        [\<lparr>addr = A, instruction = v, patched_instruction = IB v, enabled = en\<rparr>])"

text \<open>The state in which the step-over loop of \<^verbatim>\<open>cont_all_and_set_bps\<close> ended.\<close>

definition over :: "('k, 'r) world + c_int \<times> ('k, 'r) world \<Rightarrow> ('k, 'r) world" where
  "over r = (case r of Inl w \<Rightarrow> w | Inr (s, w) \<Rightarrow> w)"

text \<open>
  The state of the breakpoint table and of tracee memory that the calls maintain, as
  long as the breakpoints are set at addresses of the list \<open>as\<close>, any two of which are
  apart: one record per address, and the patched word in memory under every disabled
  record.
\<close>

definition spaced :: "u64 list \<Rightarrow> bool" where
  "spaced as \<longleftrightarrow> list_all (\<lambda>a. list_all (\<lambda>b. a = b \<or> apart a b) as) as"

definition bp_inv :: "u64 list \<Rightarrow> ('k, 'r) world \<Rightarrow> bool" where
  "bp_inv as w \<longleftrightarrow>
     distinct (map addr (b_HEAD w)) \<and>
     list_all (\<lambda>b. addr b \<in> set as \<and>
                    (enabled b \<or> word_at (addr b) w = patched_instruction b)) (b_HEAD w)"

text \<open>
  A call that sets breakpoints only at addresses of \<open>as\<close> and pokes only words that are
  apart from all of them.
\<close>

fun call_ok :: "u64 list \<Rightarrow> call \<Rightarrow> bool" where
  "call_ok as (Register_breakpoint p a) = (a \<in> set as)"
| "call_ok as (Ptrace_pokedata p a d) = list_all (apart a) as"
| "call_ok as _ = True"

text \<open>Poking a list of words, in order: what both breakpoint loops of the engine do.\<close>

fun poke_all :: "c_int \<Rightarrow> (u64 \<times> u64) list \<Rightarrow> ('k, 'r) world \<Rightarrow> ('k, 'r) world" where
  "poke_all p [] w = w"
| "poke_all p (x # xs) w = poke_all p xs (pokedata p (fst x) (snd x) w)"

section \<open>A scripted kernel for the examples\<close>

text \<open>
  The register block is the instruction pointer alone. The script lists the instruction
  pointers that successive single-steps reach (a single-step with nothing left fails),
  the answers of successive \<^verbatim>\<open>waitpid\<close> calls (-1 when nothing is left) and the
  threads that are running, for which \<^verbatim>\<open>PTRACE_GETREGS\<close> fails: a thread runs once it
  is continued, until a \<^verbatim>\<open>waitpid\<close> returns it. The script also records the registers
  it was asked to set, latest first.
\<close>

record script =
  ips :: "u64 list"
  cur_ip :: u64
  waits :: "(c_int \<times> c_int option) list"
  running :: "c_int list"
  flushed :: "(c_int \<times> u64) list"

definition scripted :: "(script, u64) kernel" where
  "scripted =
     \<lparr>k_setregs = (\<lambda>t r k. (0, k\<lparr>flushed := (t, r) # flushed k\<rparr>)),
      k_getregs = (\<lambda>t k. if t \<in> set (running k) then (None, k) else (Some (cur_ip k), k)),
      k_singlestep =
        (\<lambda>t k. case ips k of [] \<Rightarrow> (- 1, k) | x # xs \<Rightarrow> (0, k\<lparr>ips := xs, cur_ip := x\<rparr>)),
      k_cont = (\<lambda>t k. (0, k\<lparr>running := t # running k\<rparr>)),
      k_waitpid =
        (\<lambda>p opts k. case waits k of
           [] \<Rightarrow> ((- 1, None), k)
         | a # as \<Rightarrow> (a, k\<lparr>waits := as, running := removeAll (fst a) (running k)\<rparr>)),
      k_tgkill = (\<lambda>p t s k. k),
      k_uninit = (\<lambda>k. 0),
      k_uninit_regs = (\<lambda>k. 0)\<rparr>"

text \<open>The amd64 trap: the lowest byte of the word becomes \<^verbatim>\<open>int3\<close>.\<close>

definition int3 :: "u64 \<Rightarrow> u64" where
  "int3 v = (v AND 0xFFFFFFFFFFFFFF00) OR 0xCC"

definition script0 :: script where
  "script0 = \<lparr>ips = [], cur_ip = 0x400100, waits = [], running = [], flushed = []\<rparr>"

definition world0 :: "(script, u64) world" where
  "world0 = \<lparr>t_HEAD = [], b_HEAD = [], memory = (\<lambda>a. 0x90),
             kern = script0, trace = []\<rparr>"

text \<open>Two stopped threads, 2 and 1, registered in that order of the list.\<close>

definition world1 :: "(script, u64) world" where
  "world1 = world0\<lparr>t_HEAD := [\<lparr>tid = 2, regs = 0x400100\<rparr>, \<lparr>tid = 1, regs = 0x400108\<rparr>]\<rparr>"

text \<open>A table with two records; the one at \<^verbatim>\<open>0x400110\<close> is the second.\<close>

definition world2 :: "(script, u64) world" where
  "world2 = world1\<lparr>b_HEAD :=
     [\<lparr>addr = 0x400120, instruction = 0x9090909090909090,
       patched_instruction = 0x90909090909090CC, enabled = True\<rparr>,
      \<lparr>addr = 0x400110, instruction = 0x9090909090909090,
       patched_instruction = 0x90909090909090CC, enabled = True\<rparr>]\<rparr>"

text \<open>
  Three threads and two breakpoints, the one at \<^verbatim>\<open>0x400120\<close> disabled, then everything
  continued. The kernel will report a trap of thread 1, the stops of threads 3 and 2, and
  one more event, of a thread 4.
\<close>

definition world5 :: "(script, u64) world" where
  "world5 = world0\<lparr>kern := script0\<lparr>waits :=
     [(1, Some 1407), (3, Some 4991), (2, Some 4991), (4, Some 1407), (0, None)]\<rparr>\<rparr>"

definition calls5 :: "call list" where
  "calls5 = [Register_thread 1, Register_thread 2, Register_thread 3,
             Register_breakpoint 7 0x400110, Register_breakpoint 7 0x400120,
             Disable_breakpoint 7 0x400120, Cont_all_and_set_bps 7]"

text \<open>The state these calls lead to.\<close>

definition world6 :: "(script, u64) world" where
  "world6 =
     snd (cont_all_and_set_bps scripted id 7
       (disable_breakpoint 7 0x400120
         (register_breakpoint int3 7 0x400120
           (register_breakpoint int3 7 0x400110
             (snd (register_thread scripted 3
               (snd (register_thread scripted 2
                 (snd (register_thread scripted 1 world5)))))))))) "

text \<open>
  One thread, one breakpoint, everything continued, on a kernel whose \<^verbatim>\<open>waitpid\<close> has
  nothing to report and fails.
\<close>

definition calls3 :: "call list" where
  "calls3 = [Register_thread 1, Register_breakpoint 7 0x400110, Cont_all_and_set_bps 7]"

definition world3 :: "(script, u64) world" where
  "world3 =
     snd (cont_all_and_set_bps scripted id 7
       (register_breakpoint int3 7 0x400110 (snd (register_thread scripted 1 world0))))"

text \<open>
  Thread 1 sits on the breakpoint at \<^verbatim>\<open>0x400110\<close>, thread 2 does not. In the first
  script the wait after the single-step reports a trap (status 1407); in the second it
  first reports a stop by \<^verbatim>\<open>SIGSTOP\<close> (status 4991).
\<close>

definition world7 :: "(script, u64) world" where
  "world7 = world0
     \<lparr>t_HEAD := [\<lparr>tid = 2, regs = 0x400100\<rparr>, \<lparr>tid = 1, regs = 0x400110\<rparr>],
      b_HEAD := [\<lparr>addr = 0x400110, instruction = 0x9090909090909090,
                  patched_instruction = 0x90909090909090CC, enabled = True\<rparr>],
      kern := script0\<lparr>ips := [0x400111], cur_ip := 0x400110, waits := [(1, Some 1407)]\<rparr>\<rparr>"

definition world8 :: "(script, u64) world" where
  "world8 = world7
     \<lparr>kern := script0\<lparr>ips := [0x400111, 0x400112], cur_ip := 0x400110,
                       waits := [(1, Some 4991), (1, Some 1407)]\<rparr>\<rparr>"

text \<open>
  One thread at \<^verbatim>\<open>0x4000E0\<close> that advances by two bytes at every single-step, and one
  that does not move at every other single-step.
\<close>

definition world9 :: "(script, u64) world" where
  "world9 = world0
     \<lparr>t_HEAD := [\<lparr>tid = 1, regs = 0x4000E0\<rparr>],
      kern := script0\<lparr>ips := [0x4000E2, 0x4000E4, 0x4000E6, 0x4000E8, 0x4000EA, 0x4000EC],
                       cur_ip := 0x4000E0,
                       waits := [(1, Some 1407), (1, Some 1407), (1, Some 1407), (1, Some 1407),
                                 (1, Some 1407), (1, Some 1407)]\<rparr>\<rparr>"

definition world10 :: "(script, u64) world" where
  "world10 = world0
     \<lparr>t_HEAD := [\<lparr>tid = 1, regs = 0x4000E0\<rparr>],
      kern := script0\<lparr>ips := [0x4000E0, 0x4000E2, 0x4000E2, 0x4000E4, 0x4000E4, 0x4000E6],
                       cur_ip := 0x4000E0,
                       waits := [(1, Some 1407), (1, Some 1407), (1, Some 1407), (1, Some 1407),
                                 (1, Some 1407), (1, Some 1407)]\<rparr>\<rparr>"

text \<open>
  The state of \<open>world7\<close> on a kernel that has no instruction left to step to: the
  single-step of thread 1 fails.
\<close>

definition world12 :: "(script, u64) world" where
  "world12 = world7\<lparr>kern := script0\<lparr>cur_ip := 0x400110\<rparr>\<rparr>"

text \<open>
  A kernel on which every single-step succeeds and leaves the thread where it is, and one
  thread on it.
\<close>

definition idle :: "(script, u64) kernel" where
  "idle = scripted\<lparr>k_singlestep := (\<lambda>t k. (0, k))\<rparr>"

definition world11 :: "(script, u64) world" where
  "world11 = world0\<lparr>t_HEAD := [\<lparr>tid = 1, regs = 0x400100\<rparr>]\<rparr>"

text \<open>
  Two breakpoints one byte apart, the higher one installed first, then everything
  continued; the kernel will report a trap of thread 1.
\<close>

definition world40 :: "(script, u64) world" where
  "world40 = world0\<lparr>kern := script0\<lparr>waits := [(1, Some 1407), (0, None)]\<rparr>\<rparr>"

definition calls4 :: "call list" where
  "calls4 = [Register_thread 1, Register_breakpoint 7 0x400111,
             Register_breakpoint 7 0x400110, Cont_all_and_set_bps 7]"

definition world4 :: "(script, u64) world" where
  "world4 =
     snd (cont_all_and_set_bps scripted id 7
       (register_breakpoint int3 7 0x400110
         (register_breakpoint int3 7 0x400111 (snd (register_thread scripted 1 world40)))))"

text \<open>The state in which the \<^verbatim>\<open>wait_all_and_update_regs\<close> that follows returns.\<close>

definition world41 :: "(script, u64) world" where
  "world41 = snd (the (wait_all_and_update_regs scripted 7 world4))"

text \<open>
  One breakpoint, disabled; then the debugger writes a zero word at its address with
  \<^verbatim>\<open>ptrace_pokedata\<close> and continues everything; and the state in which the
  \<^verbatim>\<open>wait_all_and_update_regs\<close> that follows returns.
\<close>

definition calls13 :: "call list" where
  "calls13 = [Register_thread 1, Register_breakpoint 7 0x400110, Disable_breakpoint 7 0x400110,
              Ptrace_pokedata 7 0x400110 0, Cont_all_and_set_bps 7]"

definition world13 :: "(script, u64) world" where
  "world13 =
     snd (cont_all_and_set_bps scripted id 7
       (snd (ptrace_pokedata 7 0x400110 0
         (disable_breakpoint 7 0x400110
           (register_breakpoint int3 7 0x400110 (snd (register_thread scripted 1 world40)))))))"

definition world14 :: "(script, u64) world" where
  "world14 = snd (the (wait_all_and_update_regs scripted 7 world13))"

section \<open>Basic facts about the requests and the loops\<close>

subsection \<open>Words and bytes\<close>

lemma byte_part:
  fixes d :: u64
  shows "bit (push_bit (8 * k) (ucast (ucast (drop_bit (8 * k) d) :: 8 word)) :: u64) n
           \<longleftrightarrow> 8 * k \<le> n \<and> n < 8 * k + 8 \<and> n < 64 \<and> bit d n"
  by (auto simp add: bit_simps)

lemma bytes_join:
  fixes d :: u64
  shows "ucast (ucast d :: 8 word) OR push_bit 8 (ucast (ucast (drop_bit 8 d) :: 8 word)) OR
     push_bit 16 (ucast (ucast (drop_bit 16 d) :: 8 word)) OR
     push_bit 24 (ucast (ucast (drop_bit 24 d) :: 8 word)) OR
     push_bit 32 (ucast (ucast (drop_bit 32 d) :: 8 word)) OR
     push_bit 40 (ucast (ucast (drop_bit 40 d) :: 8 word)) OR
     push_bit 48 (ucast (ucast (drop_bit 48 d) :: 8 word)) OR
     push_bit 56 (ucast (ucast (drop_bit 56 d) :: 8 word)) = d"
proof (rule bit_word_eqI)
  fix n :: nat
  assume "n < LENGTH(64)"
  then have n: "n < 64" by simp
  have p: "bit (push_bit (8 * k) (ucast (ucast (drop_bit (8 * k) d) :: 8 word)) :: u64) n
           \<longleftrightarrow> 8 * k \<le> n \<and> n < 8 * k + 8 \<and> bit d n" for k
    using byte_part [of k d n] n by simp
  have q0: "bit (ucast (ucast d :: 8 word) :: u64) n \<longleftrightarrow> n < 8 \<and> bit d n"
    using p [of 0] by simp
  have q1: "bit (push_bit 8 (ucast (ucast (drop_bit 8 d) :: 8 word)) :: u64) n
      \<longleftrightarrow> 8 \<le> n \<and> n < 16 \<and> bit d n"
    using p [of 1] by simp
  have q2: "bit (push_bit 16 (ucast (ucast (drop_bit 16 d) :: 8 word)) :: u64) n
      \<longleftrightarrow> 16 \<le> n \<and> n < 24 \<and> bit d n"
    using p [of 2] by simp
  have q3: "bit (push_bit 24 (ucast (ucast (drop_bit 24 d) :: 8 word)) :: u64) n
      \<longleftrightarrow> 24 \<le> n \<and> n < 32 \<and> bit d n"
    using p [of 3] by simp
  have q4: "bit (push_bit 32 (ucast (ucast (drop_bit 32 d) :: 8 word)) :: u64) n
      \<longleftrightarrow> 32 \<le> n \<and> n < 40 \<and> bit d n"
    using p [of 4] by simp
  have q5: "bit (push_bit 40 (ucast (ucast (drop_bit 40 d) :: 8 word)) :: u64) n
      \<longleftrightarrow> 40 \<le> n \<and> n < 48 \<and> bit d n"
    using p [of 5] by simp
  have q6: "bit (push_bit 48 (ucast (ucast (drop_bit 48 d) :: 8 word)) :: u64) n
      \<longleftrightarrow> 48 \<le> n \<and> n < 56 \<and> bit d n"
    using p [of 6] by simp
  have q7: "bit (push_bit 56 (ucast (ucast (drop_bit 56 d) :: 8 word)) :: u64) n
      \<longleftrightarrow> 56 \<le> n \<and> n < 64 \<and> bit d n"
    using p [of 7] by simp
  note q = q0 q1 q2 q3 q4 q5 q6 q7
  show "bit ((ucast (ucast d :: 8 word) :: u64) OR
     push_bit 8 (ucast (ucast (drop_bit 8 d) :: 8 word)) OR
     push_bit 16 (ucast (ucast (drop_bit 16 d) :: 8 word)) OR
     push_bit 24 (ucast (ucast (drop_bit 24 d) :: 8 word)) OR
     push_bit 32 (ucast (ucast (drop_bit 32 d) :: 8 word)) OR
     push_bit 40 (ucast (ucast (drop_bit 40 d) :: 8 word)) OR
     push_bit 48 (ucast (ucast (drop_bit 48 d) :: 8 word)) OR
     push_bit 56 (ucast (ucast (drop_bit 56 d) :: 8 word))) n = bit d n"
  proof (cases "bit d n")
    case False
    then show ?thesis unfolding bit_or_iff q by simp
  next
    case True
    have "n < 8 \<or> 8 \<le> n \<and> n < 16 \<or> 16 \<le> n \<and> n < 24 \<or> 24 \<le> n \<and> n < 32 \<or>
          32 \<le> n \<and> n < 40 \<or> 40 \<le> n \<and> n < 48 \<or> 48 \<le> n \<and> n < 56 \<or> 56 \<le> n"
      by arith
    with True n show ?thesis unfolding bit_or_iff q by simp
  qed
qed

text \<open>A word that was stored is the word that is loaded.\<close>

lemma load_store_same: "load_word (store_word m a d) a = d"
  using bytes_join [of d] by (simp add: load_word_def store_word_def)

lemma apart_off:
  fixes a b :: u64
  assumes "apart a b" "k < 8"
  shows "\<not> (b + k) - a < 8"
  using assms unfolding apart_def by uint_arith

text \<open>Storing a word leaves the words that are apart from it as they were.\<close>

lemma load_store_apart:
  assumes "apart a b"
  shows "load_word (store_word m a d) b = load_word m b"
  using apart_off [OF assms, of 0] apart_off [OF assms, of 1] apart_off [OF assms, of 2]
    apart_off [OF assms, of 3] apart_off [OF assms, of 4] apart_off [OF assms, of 5]
    apart_off [OF assms, of 6] apart_off [OF assms, of 7]
  by (simp add: load_word_def store_word_def)

lemma word_at_pokedata_same [simp]: "word_at a (pokedata p a d w) = d"
  by (simp add: word_at_def pokedata_def load_store_same)

lemma word_at_pokedata_apart: "apart a b \<Longrightarrow> word_at b (pokedata p a d w) = word_at b w"
  by (simp add: word_at_def pokedata_def load_store_apart)

subsection \<open>The requests\<close>

lemma ptrace_setregs_simps [simp]:
  "t_HEAD (snd (ptrace_setregs K t r w)) = t_HEAD w"
  "b_HEAD (snd (ptrace_setregs K t r w)) = b_HEAD w"
  "memory (snd (ptrace_setregs K t r w)) = memory w"
  "trace (snd (ptrace_setregs K t r w)) = trace w @ [SetRegs t r]"
  "kern (snd (ptrace_setregs K t r w)) = snd (k_setregs K t r (kern w))"
  by (simp_all add: ptrace_setregs_def split: prod.splits)

lemma ptrace_singlestep_simps [simp]:
  "t_HEAD (snd (ptrace_singlestep K t w)) = t_HEAD w"
  "b_HEAD (snd (ptrace_singlestep K t w)) = b_HEAD w"
  "memory (snd (ptrace_singlestep K t w)) = memory w"
  "trace (snd (ptrace_singlestep K t w)) =
     trace w @ [SingleStep t (fst (ptrace_singlestep K t w))]"
  by (simp_all add: ptrace_singlestep_def split: prod.splits)

lemma ptrace_cont_simps [simp]:
  "t_HEAD (snd (ptrace_cont K t w)) = t_HEAD w"
  "b_HEAD (snd (ptrace_cont K t w)) = b_HEAD w"
  "memory (snd (ptrace_cont K t w)) = memory w"
  "trace (snd (ptrace_cont K t w)) = trace w @ [Continue t]"
  by (simp_all add: ptrace_cont_def split: prod.splits)

lemma ptrace_getregs_simps [simp]:
  "t_HEAD (snd (ptrace_getregs K t w)) = t_HEAD w"
  "b_HEAD (snd (ptrace_getregs K t w)) = b_HEAD w"
  "memory (snd (ptrace_getregs K t w)) = memory w"
  "trace (snd (ptrace_getregs K t w)) = trace w @ [GetRegs t]"
  by (simp_all add: ptrace_getregs_def split: prod.splits)

lemma waitpid_simps [simp]:
  "t_HEAD (snd (waitpid K t opts w)) = t_HEAD w"
  "b_HEAD (snd (waitpid K t opts w)) = b_HEAD w"
  "memory (snd (waitpid K t opts w)) = memory w"
  "trace (snd (waitpid K t opts w)) =
     trace w @ [Waitpid t opts (fst (fst (waitpid K t opts w))) (snd (fst (waitpid K t opts w)))]"
  by (simp_all add: waitpid_def split: prod.splits)

lemma tgkill_simps [simp]:
  "t_HEAD (tgkill K p t s w) = t_HEAD w"
  "b_HEAD (tgkill K p t s w) = b_HEAD w"
  "memory (tgkill K p t s w) = memory w"
  "trace (tgkill K p t s w) = trace w @ [Tgkill p t s]"
  by (simp_all add: tgkill_def)

lemma pokedata_simps [simp]:
  "t_HEAD (pokedata p a d w) = t_HEAD w"
  "b_HEAD (pokedata p a d w) = b_HEAD w"
  "memory (pokedata p a d w) = store_word (memory w) a d"
  "trace (pokedata p a d w) = trace w @ [PokeData p a d]"
  "kern (pokedata p a d w) = kern w"
  by (simp_all add: pokedata_def)

lemma peekdata_simps [simp]:
  "t_HEAD (snd (peekdata p a w)) = t_HEAD w"
  "b_HEAD (snd (peekdata p a w)) = b_HEAD w"
  "memory (snd (peekdata p a w)) = memory w"
  "kern (snd (peekdata p a w)) = kern w"
  "trace (snd (peekdata p a w)) = trace w @ [PeekData p a]"
  "fst (peekdata p a w) = load_word (memory w) a"
  by (simp_all add: peekdata_def)

lemma ptrace_peekdata_simps [simp]:
  "snd (ptrace_peekdata p a w) = snd (peekdata p a w)"
  "fst (ptrace_peekdata p a w) = load_word (memory w) a"
  by (simp_all add: ptrace_peekdata_def)

lemma ptrace_pokedata_simps [simp]:
  "snd (ptrace_pokedata p a d w) = pokedata p a d w"
  "fst (ptrace_pokedata p a d w) = 0"
  by (simp_all add: ptrace_pokedata_def)

lemma set_regs_at_simps [simp]:
  "b_HEAD (set_regs_at i r w) = b_HEAD w"
  "memory (set_regs_at i r w) = memory w"
  "trace (set_regs_at i r w) = trace w"
  "kern (set_regs_at i r w) = kern w"
  "map tid (t_HEAD (set_regs_at i r w)) = map tid (t_HEAD w)"
  by (simp_all add: set_regs_at_def map_update list_update_same_conv)

lemma getregs_into_simps [simp]:
  "b_HEAD (snd (getregs_into K t i w)) = b_HEAD w"
  "memory (snd (getregs_into K t i w)) = memory w"
  "trace (snd (getregs_into K t i w)) = trace w @ [GetRegs t]"
  "map tid (t_HEAD (snd (getregs_into K t i w))) = map tid (t_HEAD w)"
proof -
  obtain r w1 where e: "ptrace_getregs K t w = (r, w1)" by (cases "ptrace_getregs K t w")
  then have f: "t_HEAD w1 = t_HEAD w" "b_HEAD w1 = b_HEAD w" "memory w1 = memory w"
    "trace w1 = trace w @ [GetRegs t]"
    using ptrace_getregs_simps [of K t w] by simp_all
  show "b_HEAD (snd (getregs_into K t i w)) = b_HEAD w"
    "memory (snd (getregs_into K t i w)) = memory w"
    "trace (snd (getregs_into K t i w)) = trace w @ [GetRegs t]"
    "map tid (t_HEAD (snd (getregs_into K t i w))) = map tid (t_HEAD w)"
    using e f by (cases r; simp add: getregs_into_def)+
qed

lemma flush_regs_simps [simp]:
  "t_HEAD (flush_regs K ts w) = t_HEAD w"
  "b_HEAD (flush_regs K ts w) = b_HEAD w"
  "memory (flush_regs K ts w) = memory w"
  "trace (flush_regs K ts w) = trace w @ map (\<lambda>t. SetRegs (tid t) (regs t)) ts"
  "kern (flush_regs K ts w) = foldl (\<lambda>k t. snd (k_setregs K (tid t) (regs t) k)) (kern w) ts"
  by (induction ts arbitrary: w; simp)+

lemma flush_and_find_flush: "snd (flush_and_find K x ts i s w) = flush_regs K ts w"
  by (induction ts arbitrary: i s w) simp_all

lemma flush_and_find_absent:
  "x \<notin> tid ` set ts \<Longrightarrow> fst (flush_and_find K x ts i s w) = s"
  by (induction ts arbitrary: i s w) auto

lemma step_until_absent:
  assumes "x \<notin> tid ` set (t_HEAD w)"
  shows "step_until K IP x a n w = Some (- 1, flush_regs K (t_HEAD w) w)"
proof -
  obtain s w1 where e: "flush_and_find K x (t_HEAD w) 0 None w = (s, w1)"
    by (cases "flush_and_find K x (t_HEAD w) 0 None w")
  from e flush_and_find_absent [OF assms, of K 0 None w] have "s = None" by simp
  moreover from e flush_and_find_flush [of K x "t_HEAD w" 0 None w]
  have "w1 = flush_regs K (t_HEAD w) w" by simp
  ultimately show ?thesis using e by (simp add: step_until_def)
qed

lemma after_step_simps [simp]:
  "b_HEAD (after_step K x i w) = b_HEAD w"
  "memory (after_step K x i w) = memory w"
  "map tid (t_HEAD (after_step K x i w)) = map tid (t_HEAD w)"
  by (simp_all add: after_step_def)

lemma step_until_loop_unfold:
  "step_until_loop K IP x i a m c w =
     (if m = - 1 \<or> c <s m then
        if fst (ptrace_singlestep K x w) \<noteq> 0 then Some (- 1, c, snd (ptrace_singlestep K x w))
        else if IP (regs (t_HEAD (after_step K x i w) ! i)) = a
             then Some (0, c, after_step K x i w)
             else if IP (regs (t_HEAD (after_step K x i w) ! i)) = IP (regs (t_HEAD w ! i))
                  then step_until_loop K IP x i a m c (after_step K x i w)
                  else step_until_loop K IP x i a m (c + 1) (after_step K x i w)
      else Some (0, c, w))"
  by (subst step_until_loop.simps)
     (simp add: after_step_def Let_def case_prod_beta)

lemmas step_until_loop_raw = step_until_loop.raw_induct
  [where xa = "(((((((K, IP), x), i), a), m), c), w)", unfolded prod.case, rotated, consumes 1]
  for K IP x i a m c w

lemma step_until_loop_induct [consumes 1, case_names exhausted failed reached stuck counted]:
  assumes run: "step_until_loop K IP x i a m c w = Some r"
    and exhausted: "\<And>c w. \<not> (m = - 1 \<or> c <s m) \<Longrightarrow> P c w (0, c, w)"
    and failed: "\<And>c w. m = - 1 \<or> c <s m \<Longrightarrow> fst (ptrace_singlestep K x w) \<noteq> 0
                   \<Longrightarrow> P c w (- 1, c, snd (ptrace_singlestep K x w))"
    and reached: "\<And>c w. m = - 1 \<or> c <s m \<Longrightarrow> fst (ptrace_singlestep K x w) = 0
                   \<Longrightarrow> IP (regs (t_HEAD (after_step K x i w) ! i)) = a
                   \<Longrightarrow> P c w (0, c, after_step K x i w)"
    and stuck: "\<And>c w r. m = - 1 \<or> c <s m \<Longrightarrow> fst (ptrace_singlestep K x w) = 0
                   \<Longrightarrow> IP (regs (t_HEAD (after_step K x i w) ! i)) \<noteq> a
                   \<Longrightarrow> IP (regs (t_HEAD (after_step K x i w) ! i)) = IP (regs (t_HEAD w ! i))
                   \<Longrightarrow> P c (after_step K x i w) r \<Longrightarrow> P c w r"
    and counted: "\<And>c w r. m = - 1 \<or> c <s m \<Longrightarrow> fst (ptrace_singlestep K x w) = 0
                   \<Longrightarrow> IP (regs (t_HEAD (after_step K x i w) ! i)) \<noteq> a
                   \<Longrightarrow> IP (regs (t_HEAD (after_step K x i w) ! i)) \<noteq> IP (regs (t_HEAD w ! i))
                   \<Longrightarrow> P (c + 1) (after_step K x i w) r \<Longrightarrow> P c w r"
  shows "P c w r"
proof -
  have "K' = K \<and> IP' = IP \<and> x' = x \<and> i' = i \<and> a' = a \<and> m' = m \<longrightarrow> P c w r"
    if "step_until_loop K' IP' x' i' a' m' c w = Some r" for K' IP' x' i' a' m'
    using that
  proof (induction K' IP' x' i' a' m' c w r rule: step_until_loop_raw)
    case (1 f K' IP' x' i' a' m' c w r)
    show ?case
    proof (intro impI, elim conjE)
      assume eq: "K' = K" "IP' = IP" "x' = x" "i' = i" "a' = a" "m' = m"
      have ih: "f K IP x i a m c' w' = Some r' \<Longrightarrow> P c' w' r'" for c' w' r'
        using 1(1) [of K IP x i a m c' w' r'] by simp
      note body = 1(2) [unfolded eq]
      note ss = after_step_def Let_def case_prod_beta
      show "P c w r"
      proof (cases "m = - 1 \<or> c <s m")
        case False
        with body exhausted [of c w] show ?thesis by (auto simp: ss)
      next
        case g: True
        show ?thesis
        proof (cases "fst (ptrace_singlestep K x w) = 0")
          case False
          with g body failed [of c w] show ?thesis by (auto simp: ss)
        next
          case ok: True
          show ?thesis
          proof (cases "IP (regs (t_HEAD (after_step K x i w) ! i)) = a")
            case True
            with g ok body reached [of c w] show ?thesis by (auto simp: ss)
          next
            case na: False
            show ?thesis
            proof (cases "IP (regs (t_HEAD (after_step K x i w) ! i)) = IP (regs (t_HEAD w ! i))")
              case True
              with g ok na body have "f K IP x i a m c (after_step K x i w) = Some r"
                by (auto simp: ss)
              from stuck [OF g ok na True ih [OF this]] show ?thesis .
            next
              case False
              with g ok na body have "f K IP x i a m (c + 1) (after_step K x i w) = Some r"
                by (auto simp: ss)
              from counted [OF g ok na False ih [OF this]] show ?thesis .
            qed
          qed
        qed
      qed
    qed
  qed
  from this [OF run] show ?thesis by simp
qed

lemma sent_append [simp]: "trace w' = trace w @ es \<Longrightarrow> sent w w' = es"
  by (simp add: sent_def)

subsection \<open>The breakpoint table\<close>

lemma enable_first_None: "enable_first a bs = None \<longleftrightarrow> a \<notin> addr ` set bs"
  by (induction bs) auto

lemma enable_first_Some:
  "enable_first a bs = Some bs' \<Longrightarrow>
     \<exists>pre b post. bs = pre @ b # post \<and> a \<notin> addr ` set pre \<and> addr b = a \<and>
       bs' = pre @ b\<lparr>enabled := True\<rparr> # post"
proof (induction bs arbitrary: bs')
  case Nil
  then show ?case by simp
next
  case (Cons x xs)
  show ?case
  proof (cases "addr x = a")
    case True
    with Cons.prems have "bs' = x\<lparr>enabled := True\<rparr> # xs" by simp
    with True show ?thesis by (intro exI [of _ "[]"] exI [of _ x] exI [of _ xs]) simp
  next
    case False
    with Cons.prems obtain ys where ys: "enable_first a xs = Some ys" "bs' = x # ys" by auto
    from Cons.IH [OF ys(1)] obtain pre b post where
      "xs = pre @ b # post" "a \<notin> addr ` set pre" "addr b = a" "ys = pre @ b\<lparr>enabled := True\<rparr> # post"
      by blast
    with False ys(2) show ?thesis
      by (intro exI [of _ "x # pre"] exI [of _ b] exI [of _ post]) simp
  qed
qed

lemma disable_first_None: "disable_first a bs = None \<longleftrightarrow> a \<notin> addr ` set bs"
  by (induction bs) auto

lemma disable_first_Some:
  "disable_first a bs = Some (bs', a', d) \<Longrightarrow>
     \<exists>pre b post. bs = pre @ b # post \<and> a \<notin> addr ` set pre \<and> addr b = a \<and> a' = a \<and>
       d = patched_instruction b \<and> bs' = pre @ b\<lparr>enabled := False\<rparr> # post"
proof (induction bs arbitrary: bs')
  case Nil
  then show ?case by simp
next
  case (Cons x xs)
  show ?case
  proof (cases "addr x = a")
    case True
    with Cons.prems have "bs' = x\<lparr>enabled := False\<rparr> # xs" "a' = a" "d = patched_instruction x"
      by simp_all
    with True show ?thesis by (intro exI [of _ "[]"] exI [of _ x] exI [of _ xs]) simp
  next
    case False
    with Cons.prems obtain ys where ys: "disable_first a xs = Some (ys, a', d)" "bs' = x # ys"
      by auto
    from Cons.IH [OF ys(1)] obtain pre b post where
      "xs = pre @ b # post" "a \<notin> addr ` set pre" "addr b = a" "a' = a"
      "d = patched_instruction b" "ys = pre @ b\<lparr>enabled := False\<rparr> # post"
      by blast
    with False ys(2) show ?thesis
      by (intro exI [of _ "x # pre"] exI [of _ b] exI [of _ post]) simp
  qed
qed

lemma the_record_flag:
  assumes "the_record IB A v (pre @ b # post)" "a \<notin> addr ` set pre" "addr b = a"
  shows "the_record IB A v (pre @ b\<lparr>enabled := e\<rparr> # post)"
proof (cases "A = a")
  case False
  with assms show ?thesis by (auto simp: the_record_def)
next
  case True
  with assms(2) have pre: "filter (\<lambda>b. addr b = A) pre = []" by (induction pre) auto
  with assms True obtain en where
    b: "b = \<lparr>addr = A, instruction = v, patched_instruction = IB v, enabled = en\<rparr>"
    and post: "filter (\<lambda>b. addr b = A) post = []"
    by (auto simp: the_record_def)
  have "b\<lparr>enabled := e\<rparr> = \<lparr>addr = A, instruction = v, patched_instruction = IB v, enabled = e\<rparr>"
    by (simp add: b)
  with pre post True assms(3) show ?thesis by (simp add: the_record_def)
qed

lemma the_record_register:
  assumes "the_record IB A v (b_HEAD w)"
  shows "the_record IB A v (b_HEAD (register_breakpoint IB' q B w))"
proof (cases "enable_first B (b_HEAD w)")
  case None
  then have "B \<notin> addr ` set (b_HEAD w)" by (simp add: enable_first_None)
  moreover from assms have "A \<in> addr ` set (b_HEAD w)"
    by (auto simp: the_record_def filter_eq_Cons_iff)
  ultimately have "B \<noteq> A" by auto
  with None assms show ?thesis
    by (simp add: register_breakpoint_def peekdata_def the_record_def Let_def)
next
  case (Some bs')
  from enable_first_Some [OF Some] obtain pre b post where
    d: "b_HEAD w = pre @ b # post" "B \<notin> addr ` set pre" "addr b = B"
       "bs' = pre @ b\<lparr>enabled := True\<rparr> # post" by blast
  from the_record_flag [OF assms [unfolded d(1)] d(2,3)] Some d(4)
  show ?thesis
    by (simp add: register_breakpoint_def peekdata_def Let_def)
qed

lemma the_record_disable:
  assumes "the_record IB A v (b_HEAD w)"
  shows "the_record IB A v (b_HEAD (disable_breakpoint q B w))"
proof (cases "disable_first B (b_HEAD w)")
  case None
  with assms show ?thesis by (simp add: disable_breakpoint_def)
next
  case (Some r)
  obtain bs' a' d where r: "r = (bs', a', d)" by (cases r)
  from disable_first_Some [OF Some [unfolded r]] obtain pre b post where
    d: "b_HEAD w = pre @ b # post" "B \<notin> addr ` set pre" "addr b = B"
       "bs' = pre @ b\<lparr>enabled := False\<rparr> # post" by blast
  from the_record_flag [OF assms [unfolded d(1)] d(2,3)] Some r d(4)
  show ?thesis
    by (simp add: disable_breakpoint_def)
qed

lemma filter_unlink_other:
  "B \<noteq> A \<Longrightarrow> filter (\<lambda>b. addr b = A) (unlink_bp B bs) = filter (\<lambda>b. addr b = A) bs"
  by (induction bs) auto

lemma the_record_unregister:
  assumes "the_record IB A v (b_HEAD w)" "B \<noteq> A"
  shows "the_record IB A v (b_HEAD (unregister_breakpoint B w))"
  using assms by (simp add: unregister_breakpoint_def the_record_def filter_unlink_other)

lemma register_breakpoint_fresh:
  assumes "A \<notin> addr ` set (b_HEAD w)"
  shows "b_HEAD (register_breakpoint IB p A w) =
           \<lparr>addr = A, instruction = word_at A w, patched_instruction = IB (word_at A w),
             enabled = True\<rparr> # b_HEAD w"
  using assms enable_first_None [of A "b_HEAD w"]
  by (simp add: register_breakpoint_def peekdata_def word_at_def Let_def)

lemma register_breakpoint_again:
  assumes "the_record IB A v (b_HEAD w)"
  shows "b_HEAD (register_breakpoint IB' q A w) =
           map (\<lambda>b. if addr b = A then b\<lparr>enabled := True\<rparr> else b) (b_HEAD w)"
proof -
  from assms have "A \<in> addr ` set (b_HEAD w)"
    by (auto simp: the_record_def filter_eq_Cons_iff)
  then obtain bs' where s: "enable_first A (b_HEAD w) = Some bs'"
    using enable_first_None [of A "b_HEAD w"] by (cases "enable_first A (b_HEAD w)") auto
  from enable_first_Some [OF s] obtain pre b post where
    d: "b_HEAD w = pre @ b # post" "A \<notin> addr ` set pre" "addr b = A"
       "bs' = pre @ b\<lparr>enabled := True\<rparr> # post" by blast
  from d(2) have pre: "filter (\<lambda>b. addr b = A) pre = []" by (induction pre) auto
  with assms d(1,3) have "filter (\<lambda>b. addr b = A) post = []" by (auto simp: the_record_def)
  then have post: "A \<notin> addr ` set post" by (auto simp: filter_empty_conv)
  have m: "map (\<lambda>b. if addr b = A then b\<lparr>enabled := True\<rparr> else b) xs = xs"
    if "A \<notin> addr ` set xs" for xs
    using that by (induction xs) auto
  show ?thesis using s d m [OF d(2)] m [OF post]
    by (simp add: register_breakpoint_def peekdata_def Let_def)
qed

lemma disable_first_split:
  assumes "\<forall>x \<in> set pre. addr x \<noteq> a" "addr b = a"
  shows "disable_first a (pre @ b # post) =
           Some (pre @ b\<lparr>enabled := False\<rparr> # post, a, patched_instruction b)"
  using assms by (induction pre) simp_all

lemma unlink_bp_subset: "set (unlink_bp a bs) \<subseteq> set bs"
  by (induction bs) auto

lemma unlink_bp_distinct: "distinct (map addr bs) \<Longrightarrow> distinct (map addr (unlink_bp a bs))"
proof (induction bs)
  case Nil
  then show ?case by simp
next
  case (Cons b bs)
  then show ?case using unlink_bp_subset [of a bs] by auto
qed

subsection \<open>What the engine leaves alone\<close>

lemma poke_all_simps [simp]:
  "t_HEAD (poke_all p xs w) = t_HEAD w"
  "b_HEAD (poke_all p xs w) = b_HEAD w"
  "kern (poke_all p xs w) = kern w"
  "trace (poke_all p xs w) = trace w @ map (\<lambda>x. PokeData p (fst x) (snd x)) xs"
  by (induction xs arbitrary: w; simp)+

lemma poke_all_word_other:
  "list_all (\<lambda>x. apart (fst x) a) xs \<Longrightarrow> word_at a (poke_all p xs w) = word_at a w"
  by (induction xs arbitrary: w) (simp_all add: word_at_pokedata_apart)

lemma poke_all_word_at:
  assumes "distinct (map fst xs)" "list_all (\<lambda>x. fst x = a \<or> apart (fst x) a) xs"
    and "(a, d) \<in> set xs"
  shows "word_at a (poke_all p xs w) = d"
  using assms
proof (induction xs arbitrary: w)
  case Nil
  then show ?case by simp
next
  case (Cons x xs)
  show ?case
  proof (cases "x = (a, d)")
    case True
    with Cons.prems(1) have "a \<notin> fst ` set xs" by auto
    then have "fst y \<noteq> a" if "y \<in> set xs" for y using that by auto
    with Cons.prems(2) have "list_all (\<lambda>x. apart (fst x) a) xs"
      by (simp add: list_all_iff)
    with True show ?thesis by (simp add: poke_all_word_other)
  next
    case False
    with Cons show ?thesis by auto
  qed
qed

lemma set_bps_poke_all:
  "set_bps p bs w =
     poke_all p (map (\<lambda>b. (addr b, patched_instruction b)) (filter enabled bs)) w"
  by (induction bs arbitrary: w) simp_all

lemma restore_bps_poke_all:
  "restore_bps p bs w = poke_all p (map (\<lambda>b. (addr b, instruction b)) (filter enabled bs)) w"
  by (induction bs arbitrary: w) simp_all

lemma cont_threads_simps [simp]:
  "t_HEAD (cont_threads K ts w) = t_HEAD w"
  "b_HEAD (cont_threads K ts w) = b_HEAD w"
  "memory (cont_threads K ts w) = memory w"
  "trace (cont_threads K ts w) = trace w @ map (\<lambda>t. Continue (tid t)) ts"
  by (induction ts arbitrary: w; simp)+

lemma update_regs_simps [simp]:
  "b_HEAD (update_regs K ts i w) = b_HEAD w"
  "memory (update_regs K ts i w) = memory w"
  "trace (update_regs K ts i w) = trace w @ map (\<lambda>t. GetRegs (tid t)) ts"
  "map tid (t_HEAD (update_regs K ts i w)) = map tid (t_HEAD w)"
  by (induction ts arbitrary: i w; simp)+

text \<open>The step-over loop, whichever way it ends.\<close>

lemma over_simps [simp]: "over (Inl w) = w" "over (Inr (s, w)) = w"
  by (simp_all add: over_def)

lemma step_over_bps_keeps:
  "t_HEAD (over (step_over_bps K IP ts bs st w)) = t_HEAD w \<and>
   b_HEAD (over (step_over_bps K IP ts bs st w)) = b_HEAD w \<and>
   memory (over (step_over_bps K IP ts bs st w)) = memory w"
proof (induction ts arbitrary: st w)
  case Nil
  show ?case by simp
next
  case (Cons t ts)
  show ?case
  proof (cases "bp_at (IP (regs t)) bs")
    case False
    with Cons show ?thesis by simp
  next
    case hit: True
    define w1 where "w1 = snd (ptrace_singlestep K (tid t) w)"
    define w2 where "w2 = snd (waitpid K (tid t) 0 w1)"
    define w4 where "w4 = snd (waitpid K (tid t) 0 (snd (ptrace_singlestep K (tid t) w2)))"
    have k: "t_HEAD w1 = t_HEAD w" "b_HEAD w1 = b_HEAD w" "memory w1 = memory w"
      "t_HEAD w2 = t_HEAD w" "b_HEAD w2 = b_HEAD w" "memory w2 = memory w"
      "t_HEAD w4 = t_HEAD w" "b_HEAD w4 = b_HEAD w" "memory w4 = memory w"
      by (simp_all add: w1_def w2_def w4_def)
    show ?thesis
      using hit Cons [of _ w2] Cons [of _ w4] k
      by (simp add: case_prod_beta w1_def w2_def w4_def)
  qed
qed

lemma cont_all_keeps [simp]:
  "t_HEAD (snd (cont_all_and_set_bps K IP p w)) = t_HEAD w"
  "b_HEAD (snd (cont_all_and_set_bps K IP p w)) = b_HEAD w"
  using step_over_bps_keeps [of K IP "t_HEAD w" "b_HEAD w" 0 "flush_regs K (t_HEAD w) w"]
  by (auto simp add: cont_all_and_set_bps_def Let_def set_bps_poke_all split: sum.splits)

lemma singlestep_keeps [simp]:
  "t_HEAD (snd (singlestep K x w)) = t_HEAD w"
  "b_HEAD (snd (singlestep K x w)) = b_HEAD w"
  "memory (snd (singlestep K x w)) = memory w"
  by (simp_all add: singlestep_def case_prod_beta)

lemma register_thread_keeps [simp]:
  "b_HEAD (snd (register_thread K x w)) = b_HEAD w"
  "memory (snd (register_thread K x w)) = memory w"
  by (simp_all add: register_thread_def case_prod_beta split: option.splits)

lemma unregister_thread_keeps [simp]:
  "b_HEAD (unregister_thread x w) = b_HEAD w"
  "memory (unregister_thread x w) = memory w"
  by (simp_all add: unregister_thread_def)

lemma step_until_loop_keeps:
  assumes "step_until_loop K IP x i a m c w = Some r"
  shows "b_HEAD (snd (snd r)) = b_HEAD w \<and> memory (snd (snd r)) = memory w \<and>
         map tid (t_HEAD (snd (snd r))) = map tid (t_HEAD w)"
  using assms by (induction rule: step_until_loop_induct) simp_all

lemma step_until_keeps:
  assumes "step_until K IP x a m w = Some r"
  shows "b_HEAD (snd r) = b_HEAD w \<and> memory (snd r) = memory w \<and>
         map tid (t_HEAD (snd r)) = map tid (t_HEAD w)"
proof -
  obtain s w1 where e: "flush_and_find K x (t_HEAD w) 0 None w = (s, w1)"
    by (cases "flush_and_find K x (t_HEAD w) 0 None w")
  from flush_and_find_flush [of K x "t_HEAD w" 0 None w] e
  have w1: "w1 = flush_regs K (t_HEAD w) w" by simp
  show ?thesis
  proof (cases s)
    case None
    with assms e w1 show ?thesis by (auto simp: step_until_def)
  next
    case (Some i)
    with assms e obtain q where q: "step_until_loop K IP x i a m 0 w1 = Some q" "snd r = snd (snd q)"
      by (auto simp: step_until_def)
    from step_until_loop_keeps [OF q(1)] q(2) w1 show ?thesis by simp
  qed
qed

lemma stop_others_keeps:
  "b_HEAD (snd (snd (stop_others K p ts i hs tmp w))) = b_HEAD w \<and>
   memory (snd (snd (stop_others K p ts i hs tmp w))) = memory w \<and>
   map tid (t_HEAD (snd (snd (stop_others K p ts i hs tmp w)))) = map tid (t_HEAD w)"
proof (induction ts arbitrary: i hs tmp w)
  case Nil
  show ?case by simp
next
  case (Cons t ts)
  show ?case
  proof (cases hs)
    case Nil
    then show ?thesis by simp
  next
    case (Cons h hs')
    then show ?thesis
      by (simp add: Cons.IH case_prod_beta split: bool.splits)
  qed
qed

lemmas drain_raw = drain.raw_induct [rotated, consumes 1]

text \<open>The world and the node after one \<^verbatim>\<open>waitpid\<close> of the drain loop.\<close>

lemma drain_unfold:
  "drain K hs tmp w =
     (if 0 <s fst (fst (waitpid K (- 1) (WNOHANG OR WALL) w))
      then drain K
             (\<lparr>st_tid = fst (fst (waitpid K (- 1) (WNOHANG OR WALL) w)),
               status = stored (snd (fst (waitpid K (- 1) (WNOHANG OR WALL) w))) tmp\<rparr> # hs)
             (stored (snd (fst (waitpid K (- 1) (WNOHANG OR WALL) w))) tmp)
             (snd (waitpid K (- 1) (WNOHANG OR WALL) w))
      else Some (hs, snd (waitpid K (- 1) (WNOHANG OR WALL) w)))"
  by (subst drain.simps) (simp add: case_prod_beta)

lemma drain_induct [consumes 1, case_names stop again]:
  assumes run: "drain K hs tmp w = Some r"
    and stop: "\<And>hs tmp w. \<not> 0 <s fst (fst (waitpid K (- 1) (WNOHANG OR WALL) w))
                 \<Longrightarrow> P hs tmp w (hs, snd (waitpid K (- 1) (WNOHANG OR WALL) w))"
    and again: "\<And>hs tmp w r. 0 <s fst (fst (waitpid K (- 1) (WNOHANG OR WALL) w))
                 \<Longrightarrow> P (\<lparr>st_tid = fst (fst (waitpid K (- 1) (WNOHANG OR WALL) w)),
                          status = stored (snd (fst (waitpid K (- 1) (WNOHANG OR WALL) w))) tmp\<rparr> # hs)
                        (stored (snd (fst (waitpid K (- 1) (WNOHANG OR WALL) w))) tmp)
                        (snd (waitpid K (- 1) (WNOHANG OR WALL) w)) r
                 \<Longrightarrow> P hs tmp w r"
  shows "P hs tmp w r"
proof -
  have "K' = K \<longrightarrow> P hs tmp w r" if "drain K' hs tmp w = Some r" for K'
    using that
  proof (induction K' hs tmp w r rule: drain_raw)
    case (1 f K' hs tmp w r)
    show ?case
    proof
      assume eq: "K' = K"
      note body = 1(2) [unfolded eq]
      have ih: "f K hs' tmp' w' = Some r' \<Longrightarrow> P hs' tmp' w' r'" for hs' tmp' w' r'
        using 1(1) [of K hs' tmp' w' r'] by simp
      show "P hs tmp w r"
      proof (cases "0 <s fst (fst (waitpid K (- 1) (WNOHANG OR WALL) w))")
        case False
        with body stop [of w hs] show ?thesis by (auto simp: case_prod_beta)
      next
        case True
        with body have "f K (\<lparr>st_tid = fst (fst (waitpid K (- 1) (WNOHANG OR WALL) w)),
                          status = stored (snd (fst (waitpid K (- 1) (WNOHANG OR WALL) w))) tmp\<rparr> # hs)
                        (stored (snd (fst (waitpid K (- 1) (WNOHANG OR WALL) w))) tmp)
                        (snd (waitpid K (- 1) (WNOHANG OR WALL) w)) = Some r"
          by (auto simp: case_prod_beta)
        from again [OF True ih [OF this]] show ?thesis .
      qed
    qed
  qed
  from this [OF run] show ?thesis by simp
qed

lemma drain_keeps:
  assumes "drain K hs tmp w = Some r"
  shows "b_HEAD (snd r) = b_HEAD w \<and> memory (snd r) = memory w \<and> t_HEAD (snd r) = t_HEAD w"
  using assms by (induction rule: drain_induct) simp_all

lemma wait_all_keeps:
  assumes "wait_all_and_update_regs K p w = Some r"
  shows "b_HEAD (snd r) = b_HEAD w"
proof (cases "fst (fst (waitpid K (- 1) WALL w)) = - 1")
  case True
  with assms show ?thesis by (auto simp: wait_all_and_update_regs_def case_prod_beta)
next
  case False
  define w1 where "w1 = snd (waitpid K (- 1) WALL w)"
  define so where "so = stop_others K p (t_HEAD w1) 0
     [\<lparr>st_tid = fst (fst (waitpid K (- 1) WALL w)),
       status = stored (snd (fst (waitpid K (- 1) WALL w))) (k_uninit K (kern w))\<rparr>]
     (k_uninit K (kern w1)) w1"
  from assms False obtain q where
    q: "drain K (fst so) (fst (snd so)) (snd (snd so)) = Some q"
    and r: "snd r = restore_bps p (b_HEAD (snd q)) (update_regs K (t_HEAD (snd q)) 0 (snd q))"
    by (auto simp: wait_all_and_update_regs_def case_prod_beta so_def w1_def
        split: option.splits)
  from stop_others_keeps [of K p "t_HEAD w1" 0 _ _ w1] have "b_HEAD (snd (snd so)) = b_HEAD w"
    by (simp add: so_def w1_def)
  with drain_keeps [OF q] r show ?thesis by (simp add: restore_bps_poke_all)
qed

lemma poke_all_memory_cong:
  "memory w1 = memory w2 \<Longrightarrow> memory (poke_all p xs w1) = memory (poke_all p xs w2)"
  by (induction xs arbitrary: w1 w2) simp_all

subsection \<open>One record per address\<close>

lemma do_call_the_record:
  assumes "the_record IB' A v (b_HEAD w)" "c \<noteq> Unregister_breakpoint A"
    and "do_call K IP IB c w = Some w'"
  shows "the_record IB' A v (b_HEAD w')"
proof (cases c)
  case (Register_breakpoint p a)
  with assms the_record_register [OF assms(1), of IB p a] show ?thesis by auto
next
  case (Disable_breakpoint p a)
  with assms the_record_disable [OF assms(1), of p a] show ?thesis by auto
next
  case (Unregister_breakpoint a)
  with assms the_record_unregister [OF assms(1), of a] show ?thesis by auto
next
  case (Step_until x a n)
  with assms obtain r where "step_until K IP x a n w = Some r" "w' = snd r" by auto
  with step_until_keeps [of K IP x a n w r] assms(1) show ?thesis by simp
next
  case (Wait_all_and_update_regs p)
  with assms obtain r where "wait_all_and_update_regs K p w = Some r" "w' = snd r" by auto
  with wait_all_keeps [of K p w r] assms(1) show ?thesis by simp
qed (use assms in auto)

lemma do_calls_the_record:
  assumes "the_record IB' A v (b_HEAD w)" "Unregister_breakpoint A \<notin> set cs"
    and "do_calls K IP IB cs w = Some w'"
  shows "the_record IB' A v (b_HEAD w')"
  using assms
proof (induction cs arbitrary: w)
  case Nil
  then show ?case by simp
next
  case (Cons c cs)
  from Cons.prems(3) obtain w1 where
    w1: "do_call K IP IB c w = Some w1" "do_calls K IP IB cs w1 = Some w'"
    by (auto split: option.splits)
  from Cons.prems(2) have "c \<noteq> Unregister_breakpoint A" "Unregister_breakpoint A \<notin> set cs"
    by auto
  from Cons.IH [OF do_call_the_record [OF Cons.prems(1) this(1) w1(1)] this(2) w1(2)]
  show ?case .
qed

subsection \<open>The table invariant\<close>

lemma word_at_store_same: "memory w' = store_word (memory w) a v \<Longrightarrow> word_at a w' = v"
  by (simp add: word_at_def load_store_same)

lemma word_at_store_apart:
  "memory w' = store_word (memory w) a v \<Longrightarrow> apart a b \<Longrightarrow> word_at b w' = word_at b w"
  by (simp add: word_at_def load_store_apart)

lemma spaced_apart: "spaced as \<Longrightarrow> a \<in> set as \<Longrightarrow> b \<in> set as \<Longrightarrow> a \<noteq> b \<Longrightarrow> apart a b"
  by (auto simp: spaced_def list_all_iff)

lemma bp_invI:
  assumes "distinct (map addr (b_HEAD w))"
    and "\<And>x. x \<in> set (b_HEAD w) \<Longrightarrow> addr x \<in> set as"
    and "\<And>x. x \<in> set (b_HEAD w) \<Longrightarrow> \<not> enabled x \<Longrightarrow> word_at (addr x) w = patched_instruction x"
  shows "bp_inv as w"
  using assms unfolding bp_inv_def list_all_iff by blast

lemma bp_invD:
  assumes "bp_inv as w"
  shows "distinct (map addr (b_HEAD w))"
    and "\<And>x. x \<in> set (b_HEAD w) \<Longrightarrow> addr x \<in> set as"
    and "\<And>x. x \<in> set (b_HEAD w) \<Longrightarrow> \<not> enabled x \<Longrightarrow> word_at (addr x) w = patched_instruction x"
  using assms unfolding bp_inv_def list_all_iff by blast+

text \<open>
  A poke at the address of a record, with a change of its flag: the invariant is kept
  when the record ends enabled or the word poked is its patched word.
\<close>

lemma bp_inv_flag:
  assumes inv: "bp_inv as w" and sp: "spaced as" and d: "b_HEAD w = pre @ b # post"
    and m: "e \<or> v = patched_instruction b"
    and tab: "b_HEAD w' = pre @ b\<lparr>enabled := e\<rparr> # post"
    and mem: "memory w' = store_word (memory w) (addr b) v"
  shows "bp_inv as w'"
proof (rule bp_invI)
  from bp_invD(1) [OF inv] d have dist: "distinct (map addr (pre @ b # post))" by simp
  then show "distinct (map addr (b_HEAD w'))" by (simp add: tab)
  from dist have "addr b \<notin> addr ` (set pre \<union> set post)" by auto
  then have ne: "\<And>x. x \<in> set pre \<union> set post \<Longrightarrow> addr x \<noteq> addr b"
    by (metis imageI)
  have bin: "addr b \<in> set as" using bp_invD(2) [OF inv, of b] d by simp
  show "addr x \<in> set as" if "x \<in> set (b_HEAD w')" for x
  proof (cases "x = b\<lparr>enabled := e\<rparr>")
    case True
    with bin show ?thesis by simp
  next
    case False
    with that tab d have "x \<in> set (b_HEAD w)" by auto
    then show ?thesis by (rule bp_invD(2) [OF inv])
  qed
  show "word_at (addr x) w' = patched_instruction x"
    if "x \<in> set (b_HEAD w')" "\<not> enabled x" for x
  proof (cases "x = b\<lparr>enabled := e\<rparr>")
    case True
    with that(2) m have "v = patched_instruction x" "addr x = addr b" by simp_all
    with word_at_store_same [OF mem] show ?thesis by simp
  next
    case False
    with that(1) tab have xin: "x \<in> set pre \<union> set post" by auto
    with d have xw: "x \<in> set (b_HEAD w)" by auto
    from spaced_apart [OF sp bin bp_invD(2) [OF inv xw]] ne [OF xin]
    have "apart (addr b) (addr x)" by simp
    from word_at_store_apart [OF mem this] bp_invD(3) [OF inv xw that(2)]
    show ?thesis by simp
  qed
qed

lemma bp_inv_register:
  assumes inv: "bp_inv as w" and sp: "spaced as" and A: "A \<in> set as"
  shows "bp_inv as (register_breakpoint IB p A w)"
proof (cases "enable_first A (b_HEAD w)")
  case None
  then have fresh: "A \<notin> addr ` set (b_HEAD w)" by (simp add: enable_first_None)
  let ?w' = "register_breakpoint IB p A w"
  let ?b = "\<lparr>addr = A, instruction = word_at A w, patched_instruction = IB (word_at A w),
             enabled = True\<rparr>"
  have tab: "b_HEAD ?w' = ?b # b_HEAD w" by (rule register_breakpoint_fresh [OF fresh])
  have mem: "memory ?w' = store_word (memory w) A (IB (word_at A w))"
    using None by (simp add: register_breakpoint_def peekdata_def word_at_def Let_def)
  show ?thesis
  proof (rule bp_invI)
    from fresh bp_invD(1) [OF inv] show "distinct (map addr (b_HEAD ?w'))" by (simp add: tab)
    show "addr x \<in> set as" if "x \<in> set (b_HEAD ?w')" for x
      using that A bp_invD(2) [OF inv, of x] by (auto simp: tab)
    show "word_at (addr x) ?w' = patched_instruction x"
      if "x \<in> set (b_HEAD ?w')" "\<not> enabled x" for x
    proof -
      from that have xw: "x \<in> set (b_HEAD w)" by (auto simp: tab)
      with fresh have "A \<noteq> addr x" by auto
      from spaced_apart [OF sp A bp_invD(2) [OF inv xw] this]
      have "apart A (addr x)" .
      from word_at_store_apart [OF mem this] bp_invD(3) [OF inv xw that(2)]
      show ?thesis by simp
    qed
  qed
next
  case (Some bs')
  from enable_first_Some [OF Some] obtain pre b post where
    d: "b_HEAD w = pre @ b # post" "A \<notin> addr ` set pre" "addr b = A"
       "bs' = pre @ b\<lparr>enabled := True\<rparr> # post" by blast
  show ?thesis
  proof (rule bp_inv_flag [OF inv sp d(1), of True "IB (word_at A w)"])
    show "True \<or> IB (word_at A w) = patched_instruction b" by simp
    show "b_HEAD (register_breakpoint IB p A w) = pre @ b\<lparr>enabled := True\<rparr> # post"
      using Some d(4) by (simp add: register_breakpoint_def peekdata_def Let_def)
    show "memory (register_breakpoint IB p A w) =
            store_word (memory w) (addr b) (IB (word_at A w))"
      using Some d(3) by (simp add: register_breakpoint_def peekdata_def word_at_def Let_def)
  qed
qed

lemma bp_inv_disable:
  assumes inv: "bp_inv as w" and sp: "spaced as"
  shows "bp_inv as (disable_breakpoint p A w)"
proof (cases "disable_first A (b_HEAD w)")
  case None
  with inv show ?thesis by (simp add: disable_breakpoint_def)
next
  case (Some r)
  obtain bs' a' d where r: "r = (bs', a', d)" by (cases r)
  from disable_first_Some [OF Some [unfolded r]] obtain pre b post where
    d: "b_HEAD w = pre @ b # post" "A \<notin> addr ` set pre" "addr b = A" "a' = A"
       "d = patched_instruction b" "bs' = pre @ b\<lparr>enabled := False\<rparr> # post" by blast
  show ?thesis
  proof (rule bp_inv_flag [OF inv sp d(1), of False "patched_instruction b"])
    show "False \<or> patched_instruction b = patched_instruction b" by simp
    show "b_HEAD (disable_breakpoint p A w) = pre @ b\<lparr>enabled := False\<rparr> # post"
      using Some r d(6) by (simp add: disable_breakpoint_def)
    show "memory (disable_breakpoint p A w) =
            store_word (memory w) (addr b) (patched_instruction b)"
      using Some r d(3,4,5) by (simp add: disable_breakpoint_def)
  qed
qed

lemma bp_inv_unregister:
  assumes "bp_inv as w"
  shows "bp_inv as (unregister_breakpoint A w)"
proof (rule bp_invI)
  show "distinct (map addr (b_HEAD (unregister_breakpoint A w)))"
    using bp_invD(1) [OF assms] unlink_bp_distinct [of "b_HEAD w" A]
    by (simp add: unregister_breakpoint_def)
  show "addr x \<in> set as" if "x \<in> set (b_HEAD (unregister_breakpoint A w))" for x
    using that unlink_bp_subset [of A "b_HEAD w"] bp_invD(2) [OF assms, of x]
    by (auto simp: unregister_breakpoint_def)
  show "word_at (addr x) (unregister_breakpoint A w) = patched_instruction x"
    if "x \<in> set (b_HEAD (unregister_breakpoint A w))" "\<not> enabled x" for x
    using that unlink_bp_subset [of A "b_HEAD w"] bp_invD(3) [OF assms, of x]
    by (auto simp: unregister_breakpoint_def word_at_def)
qed

text \<open>Frames: a call that keeps the table and the memory keeps the invariant.\<close>

lemma bp_inv_frame:
  "bp_inv as w \<Longrightarrow> b_HEAD w' = b_HEAD w \<Longrightarrow> memory w' = memory w \<Longrightarrow> bp_inv as w'"
  by (simp add: bp_inv_def word_at_def)

text \<open>A poke that is apart from every breakpoint address keeps it.\<close>

lemma bp_inv_poke_apart:
  assumes inv: "bp_inv as w" and ap: "list_all (apart a) as"
  shows "bp_inv as (pokedata p a d w)"
proof (rule bp_invI)
  show "distinct (map addr (b_HEAD (pokedata p a d w)))" using bp_invD(1) [OF inv] by simp
  show "addr x \<in> set as" if "x \<in> set (b_HEAD (pokedata p a d w))" for x
    using that bp_invD(2) [OF inv, of x] by simp
  show "word_at (addr x) (pokedata p a d w) = patched_instruction x"
    if "x \<in> set (b_HEAD (pokedata p a d w))" "\<not> enabled x" for x
  proof -
    from that have xw: "x \<in> set (b_HEAD w)" by simp
    with ap bp_invD(2) [OF inv xw] have "apart a (addr x)" by (simp add: list_all_iff)
    with bp_invD(3) [OF inv xw that(2)] show ?thesis by (simp add: word_at_pokedata_apart)
  qed
qed

text \<open>Poking words of enabled records keeps it too.\<close>

lemma bp_inv_poke_enabled:
  assumes inv: "bp_inv as w" and sp: "spaced as" and tab: "b_HEAD w' = b_HEAD w"
    and mem: "memory w' =
      memory (poke_all p (map (\<lambda>b. (addr b, f b)) (filter enabled (b_HEAD w))) w)"
  shows "bp_inv as w'"
proof (rule bp_invI)
  from bp_invD(1) [OF inv] have dist: "distinct (map addr (b_HEAD w))" .
  then show "distinct (map addr (b_HEAD w'))" by (simp add: tab)
  show "addr x \<in> set as" if "x \<in> set (b_HEAD w')" for x
    using that bp_invD(2) [OF inv, of x] by (simp add: tab)
  show "word_at (addr x) w' = patched_instruction x"
    if "x \<in> set (b_HEAD w')" "\<not> enabled x" for x
  proof -
    from that tab have xw: "x \<in> set (b_HEAD w)" by simp
    have "apart (addr y) (addr x)" if "y \<in> set (b_HEAD w)" "enabled y" for y
    proof -
      from that \<open>\<not> enabled x\<close> have "y \<noteq> x" by auto
      with dist that(1) xw have "addr y \<noteq> addr x" by (metis distinct_map inj_onD)
      from spaced_apart [OF sp bp_invD(2) [OF inv that(1)] bp_invD(2) [OF inv xw] this]
      show ?thesis .
    qed
    then have "list_all (\<lambda>z. apart (fst z) (addr x))
                 (map (\<lambda>b. (addr b, f b)) (filter enabled (b_HEAD w)))"
      by (simp add: list_all_iff)
    from poke_all_word_other [OF this, of p w] mem bp_invD(3) [OF inv xw that(2)]
    show ?thesis by (simp add: word_at_def)
  qed
qed

lemma bp_inv_cont_all:
  assumes "bp_inv as w" "spaced as"
  shows "bp_inv as (snd (cont_all_and_set_bps K IP p w))"
proof -
  define r where "r = step_over_bps K IP (t_HEAD w) (b_HEAD w) 0 (flush_regs K (t_HEAD w) w)"
  from step_over_bps_keeps [of K IP "t_HEAD w" "b_HEAD w" 0 "flush_regs K (t_HEAD w) w"]
  have k: "b_HEAD (over r) = b_HEAD w" "memory (over r) = memory w"
    by (simp_all add: r_def)
  have inv: "bp_inv as (over r)" by (rule bp_inv_frame [OF assms(1) k])
  show ?thesis
  proof (cases r)
    case (Inl w2)
    with inv show ?thesis by (simp add: cont_all_and_set_bps_def Let_def r_def [symmetric])
  next
    case (Inr q)
    obtain st w2 where q: "q = (st, w2)" by (cases q)
    with Inr inv have inv2: "bp_inv as w2" by simp
    have "bp_inv as (cont_threads K (t_HEAD w2) (set_bps p (b_HEAD w2) w2))"
      by (rule bp_inv_poke_enabled [OF inv2 assms(2), of _ p patched_instruction])
        (simp_all add: set_bps_poke_all)
    with Inr q show ?thesis by (simp add: cont_all_and_set_bps_def Let_def r_def [symmetric])
  qed
qed

subsection \<open>The requests of \<^verbatim>\<open>wait_all_and_update_regs\<close>\<close>

lemma stop_others_step:
  "stop_others K p (t # ts) i (h # hs) tmp w =
     (if tid t \<noteq> st_tid h then
        if fst (getregs_into K (tid t) i w)
        then stop_others K p ts (Suc i) (h # hs) tmp (snd (getregs_into K (tid t) i w))
        else stop_others K p ts (Suc i)
               (\<lparr>st_tid = fst (fst (waitpid K (tid t) 0
                    (tgkill K p (tid t) SIGSTOP (snd (getregs_into K (tid t) i w))))),
                 status = stored (snd (fst (waitpid K (tid t) 0
                    (tgkill K p (tid t) SIGSTOP (snd (getregs_into K (tid t) i w)))))) tmp\<rparr>
                # h # hs)
               (stored (snd (fst (waitpid K (tid t) 0
                    (tgkill K p (tid t) SIGSTOP (snd (getregs_into K (tid t) i w)))))) tmp)
               (snd (waitpid K (tid t) 0
                    (tgkill K p (tid t) SIGSTOP (snd (getregs_into K (tid t) i w)))))
      else stop_others K p ts (Suc i) (h # hs) tmp w)"
  by (simp add: case_prod_beta split: bool.splits)

declare stop_others.simps(3) [simp del]

lemma stop_others_requests:
  fixes K :: "('k, 'r) kernel"
  shows "\<exists>es new. trace (snd (snd (stop_others K p ts i hs tmp w))) = trace w @ es \<and>
      list_all probe_request es \<and>
      fst (stop_others K p ts i hs tmp w) = new @ hs \<and>
      list_all2 reports new (rev (filter is_wait es))"
proof (induction ts arbitrary: i hs tmp w)
  case Nil
  show ?case by simp
next
  case (Cons t ts)
  show ?case
  proof (cases hs)
    case Nil
    then show ?thesis by simp
  next
    case hs: (Cons h hs')
    show ?thesis
    proof (cases "tid t \<noteq> st_tid h")
      case False
      with Cons.IH [of "Suc i" hs tmp w] hs show ?thesis by (simp add: stop_others_step)
    next
      case ne: True
      define w1 where "w1 = snd (getregs_into K (tid t) i w)"
      have t1: "trace w1 = trace w @ [GetRegs (tid t)]" by (simp add: w1_def)
      show ?thesis
      proof (cases "fst (getregs_into K (tid t) i w)")
        case True
        from Cons.IH [of "Suc i" hs tmp w1] obtain es new where
          e: "trace (snd (snd (stop_others K p ts (Suc i) hs tmp w1))) = trace w1 @ es"
            "list_all probe_request es"
            "fst (stop_others K p ts (Suc i) hs tmp w1) = new @ hs"
            "list_all2 reports new (rev (filter is_wait es))"
          by blast
        have eq: "stop_others K p (t # ts) i hs tmp w = stop_others K p ts (Suc i) hs tmp w1"
          using ne True hs by (simp add: stop_others_step w1_def)
        show ?thesis
          unfolding eq
          by (rule exI [of _ "GetRegs (tid t) # es"], rule exI [of _ new])
            (use e t1 in simp)
      next
        case False
        define q where "q = waitpid K (tid t) 0 (tgkill K p (tid t) SIGSTOP w1)"
        define n where "n = \<lparr>st_tid = fst (fst q), status = stored (snd (fst q)) tmp\<rparr>"
        define ev :: "'r request" where "ev = Waitpid (tid t) 0 (fst (fst q)) (snd (fst q))"
        have t3: "trace (snd q) = trace w @ [GetRegs (tid t), Tgkill p (tid t) SIGSTOP, ev]"
          by (simp add: q_def t1 ev_def)
        have rep: "reports n ev"
          by (simp add: n_def ev_def stored_def split: option.splits)
        from Cons.IH [of "Suc i" "n # hs" "stored (snd (fst q)) tmp" "snd q"] obtain es new where
          e: "trace (snd (snd (stop_others K p ts (Suc i) (n # hs) (stored (snd (fst q)) tmp)
                (snd q)))) = trace (snd q) @ es"
            "list_all probe_request es"
            "fst (stop_others K p ts (Suc i) (n # hs) (stored (snd (fst q)) tmp) (snd q))
               = new @ n # hs"
            "list_all2 reports new (rev (filter is_wait es))"
          by blast
        have eq: "stop_others K p (t # ts) i hs tmp w =
            stop_others K p ts (Suc i) (n # hs) (stored (snd (fst q)) tmp) (snd q)"
          using ne False hs by (simp add: stop_others_step w1_def q_def n_def)
        have "list_all2 reports (new @ [n]) (rev (filter is_wait es) @ [ev])"
          using e(4) rep by (simp add: list_all2_appendI)
        then show ?thesis
          unfolding eq
          by (intro exI [of _ "GetRegs (tid t) # Tgkill p (tid t) SIGSTOP # ev # es"]
                exI [of _ "new @ [n]"])
            (use e t3 in \<open>simp add: ev_def\<close>)
      qed
    qed
  qed
qed

lemma drain_requests:
  fixes K :: "('k, 'r) kernel"
  assumes "drain K hs tmp w = Some r"
  shows "\<exists>es fin new. trace (snd r) = trace w @ es @ [fin] \<and>
      list_all drain_request es \<and> drain_end fin \<and>
      fst r = new @ hs \<and> list_all2 reports new (rev es)"
  using assms
proof (induction rule: drain_induct)
  case (stop hs tmp w)
  show ?case
    by (intro exI [of _ "[]"] exI [of _ "Waitpid (- 1) (WNOHANG OR WALL)
          (fst (fst (waitpid K (- 1) (WNOHANG OR WALL) w)))
          (snd (fst (waitpid K (- 1) (WNOHANG OR WALL) w)))"])
      (use stop in simp)
next
  case (again hs tmp w r)
  define q where "q = waitpid K (- 1) (WNOHANG OR WALL) w"
  define n where "n = \<lparr>st_tid = fst (fst q), status = stored (snd (fst q)) tmp\<rparr>"
  define ev :: "'r request" where
    "ev = Waitpid (- 1) (WNOHANG OR WALL) (fst (fst q)) (snd (fst q))"
  have rep: "reports n ev"
    by (simp add: n_def ev_def stored_def split: option.splits)
  have dr: "drain_request ev" using again(1) by (simp add: ev_def q_def)
  have t1: "trace (snd q) = trace w @ [ev]" by (simp add: q_def ev_def)
  from again(2) [folded q_def, folded n_def] obtain es fin new where
    e: "trace (snd r) = trace (snd q) @ es @ [fin]" "list_all drain_request es" "drain_end fin"
       "fst r = new @ n # hs" "list_all2 reports new (rev es)"
    by blast
  have "list_all2 reports (new @ [n]) (rev es @ [ev])"
    using e(5) rep by (simp add: list_all2_appendI)
  then show ?case
    by (intro exI [of _ "ev # es"] exI [of _ fin] exI [of _ "new @ [n]"])
      (use e t1 dr in simp)
qed

lemma wait_all_success:
  fixes K :: "('k, 'r) kernel"
  assumes "wait_all_and_update_regs K p w = Some (Some l, w')"
  shows "\<exists>prim probes drained fin w3.
      (\<exists>r s. prim = Waitpid (- 1) WALL r s \<and> r \<noteq> - 1) \<and>
      list_all probe_request probes \<and> list_all drain_request drained \<and> drain_end fin \<and>
      trace w3 = trace w @ prim # probes @ drained @ [fin] \<and>
      b_HEAD w3 = b_HEAD w \<and> memory w3 = memory w \<and>
      w' = restore_bps p (b_HEAD w3) (update_regs K (t_HEAD w3) 0 w3) \<and>
      list_all2 reports l (rev drained @ rev (filter is_wait probes) @ [prim])"
proof -
  define q0 where "q0 = waitpid K (- 1) WALL w"
  define prim :: "'r request" where "prim = Waitpid (- 1) WALL (fst (fst q0)) (snd (fst q0))"
  define h0 where
    "h0 = \<lparr>st_tid = fst (fst q0), status = stored (snd (fst q0)) (k_uninit K (kern w))\<rparr>"
  define so where
    "so = stop_others K p (t_HEAD (snd q0)) 0 [h0] (k_uninit K (kern (snd q0))) (snd q0)"
  have ne: "fst (fst q0) \<noteq> - 1"
    using assms by (auto simp: wait_all_and_update_regs_def case_prod_beta q0_def)
  with assms obtain qd where
    qd: "drain K (fst so) (fst (snd so)) (snd (snd so)) = Some qd"
    and l: "l = fst qd"
    and w': "w' = restore_bps p (b_HEAD (snd qd)) (update_regs K (t_HEAD (snd qd)) 0 (snd qd))"
    by (auto simp: wait_all_and_update_regs_def case_prod_beta so_def h0_def q0_def
        split: option.splits)
  have t1: "trace (snd q0) = trace w @ [prim]" by (simp add: q0_def prim_def)
  have k1: "b_HEAD (snd q0) = b_HEAD w" "memory (snd q0) = memory w" by (simp_all add: q0_def)
  from stop_others_requests [of K p "t_HEAD (snd q0)" 0 "[h0]" "k_uninit K (kern (snd q0))" "snd q0"]
  obtain es new where
    s: "trace (snd (snd so)) = trace (snd q0) @ es" "list_all probe_request es"
       "fst so = new @ [h0]" "list_all2 reports new (rev (filter is_wait es))"
    unfolding so_def by blast
  from stop_others_keeps [of K p "t_HEAD (snd q0)" 0 "[h0]" "k_uninit K (kern (snd q0))" "snd q0"]
  have k2: "b_HEAD (snd (snd so)) = b_HEAD w" "memory (snd (snd so)) = memory w"
    by (simp_all add: so_def k1)
  from drain_requests [OF qd] obtain es2 fin new2 where
    d: "trace (snd qd) = trace (snd (snd so)) @ es2 @ [fin]" "list_all drain_request es2"
       "drain_end fin" "fst qd = new2 @ fst so" "list_all2 reports new2 (rev es2)"
    by blast
  from drain_keeps [OF qd] have k3: "b_HEAD (snd qd) = b_HEAD w" "memory (snd qd) = memory w"
    by (simp_all add: k2)
  have "reports h0 prim"
    by (simp add: h0_def prim_def stored_def split: option.splits)
  then have "list_all2 reports (new2 @ new @ [h0]) (rev es2 @ rev (filter is_wait es) @ [prim])"
    using s(4) d(5) by (simp add: list_all2_appendI)
  then have rep: "list_all2 reports l (rev es2 @ rev (filter is_wait es) @ [prim])"
    by (simp add: l d(4) s(3))
  have tr: "trace (snd qd) = trace w @ prim # es @ es2 @ [fin]"
    by (simp add: d(1) s(1) t1)
  show ?thesis
    by (intro exI [of _ prim] exI [of _ es] exI [of _ es2] exI [of _ fin] exI [of _ "snd qd"])
      (use ne s(2) d(2,3) tr k3 w' rep in \<open>simp add: prim_def\<close>)
qed

lemma no_poke_probe: "list_all probe_request es \<Longrightarrow> filter is_poke es = []"
  by (induction es) (auto elim: probe_request.elims)

lemma no_poke_drain: "list_all drain_request es \<Longrightarrow> filter is_poke es = []"
  by (induction es) (auto elim: drain_request.elims)

lemma no_poke_end: "drain_end e \<Longrightarrow> \<not> is_poke e"
  by (auto elim: drain_end.elims)

lemma filter_poke_getregs: "filter is_poke (map (\<lambda>t. GetRegs (tid t)) ts) = []"
  by (induction ts) simp_all

lemma filter_poke_pokes: "filter is_poke (map (\<lambda>x. PokeData p (f x) (g x)) xs) = map (\<lambda>x. PokeData p (f x) (g x)) xs"
  by (induction xs) simp_all

lemma filter_wait_getregs: "filter is_wait (map (\<lambda>t. GetRegs (tid t)) ts) = []"
  by (induction ts) simp_all

lemma filter_wait_pokes: "filter is_wait (map (\<lambda>x. PokeData p (f x) (g x)) xs) = []"
  by (induction xs) simp_all

subsection \<open>The invariant along a sequence of calls\<close>

lemma do_call_bp_inv:
  assumes inv: "bp_inv as w" and sp: "spaced as" and ok: "call_ok as c"
    and run: "do_call K IP IB c w = Some w'"
  shows "bp_inv as w'"
proof (cases c)
  case (Register_thread x)
  with inv run show ?thesis by (auto intro: bp_inv_frame)
next
  case (Unregister_thread x)
  with inv run show ?thesis by (auto intro: bp_inv_frame)
next
  case (Register_breakpoint p a)
  with inv sp ok run show ?thesis by (auto intro: bp_inv_register)
next
  case (Unregister_breakpoint a)
  with inv run show ?thesis by (auto intro: bp_inv_unregister)
next
  case (Disable_breakpoint p a)
  with inv sp run show ?thesis by (auto intro: bp_inv_disable)
next
  case (Ptrace_peekdata p a)
  with inv run show ?thesis
    by (auto simp: ptrace_peekdata_def peekdata_def intro: bp_inv_frame)
next
  case (Ptrace_pokedata p a d)
  with inv ok run show ?thesis
    by (auto simp: ptrace_pokedata_def intro: bp_inv_poke_apart)
next
  case (Singlestep x)
  with inv run show ?thesis by (auto intro: bp_inv_frame)
next
  case (Step_until x a n)
  with run obtain r where "step_until K IP x a n w = Some r" "w' = snd r" by auto
  with step_until_keeps [of K IP x a n w r] inv show ?thesis
    by (auto intro: bp_inv_frame)
next
  case (Cont_all_and_set_bps p)
  with inv sp run show ?thesis by (auto intro: bp_inv_cont_all)
next
  case (Wait_all_and_update_regs p)
  with run obtain r where r: "wait_all_and_update_regs K p w = Some r" "w' = snd r" by auto
  show ?thesis
  proof (cases "fst r")
    case None
    with r have "fst (fst (waitpid K (- 1) WALL w)) = - 1"
      by (auto simp: wait_all_and_update_regs_def case_prod_beta split: if_splits option.splits)
    with r have "w' = snd (waitpid K (- 1) WALL w)"
      by (auto simp: wait_all_and_update_regs_def case_prod_beta)
    with inv show ?thesis by (auto intro: bp_inv_frame)
  next
    case (Some l)
    with r have "wait_all_and_update_regs K p w = Some (Some l, w')" by (cases r) simp
    from wait_all_success [OF this] obtain w3 where
      w3: "b_HEAD w3 = b_HEAD w" "memory w3 = memory w"
          "w' = restore_bps p (b_HEAD w3) (update_regs K (t_HEAD w3) 0 w3)"
      by blast
    have "memory w' = memory (poke_all p (map (\<lambda>b. (addr b, instruction b))
            (filter enabled (b_HEAD w))) w)"
      unfolding w3(3) restore_bps_poke_all w3(1)
      by (rule poke_all_memory_cong) (simp add: w3(2))
    moreover have "b_HEAD w' = b_HEAD w" by (simp add: w3 restore_bps_poke_all)
    ultimately show ?thesis by (rule bp_inv_poke_enabled [OF inv sp, rotated])
  qed
qed

lemma do_calls_bp_inv:
  assumes "bp_inv as w" "spaced as" "list_all (call_ok as) cs"
    and "do_calls K IP IB cs w = Some w'"
  shows "bp_inv as w'"
  using assms
proof (induction cs arbitrary: w)
  case Nil
  then show ?case by simp
next
  case (Cons c cs)
  from Cons.prems(4) obtain w1 where
    w1: "do_call K IP IB c w = Some w1" "do_calls K IP IB cs w1 = Some w'"
    by (auto split: option.splits)
  from Cons.prems(3) have ok: "call_ok as c" "list_all (call_ok as) cs" by simp_all
  from Cons.IH [OF do_call_bp_inv [OF Cons.prems(1,2) ok(1) w1(1)] Cons.prems(2) ok(2) w1(2)]
  show ?case .
qed

subsection \<open>The requests of \<^verbatim>\<open>cont_all_and_set_bps\<close>\<close>

lemma step_over_bps_Cons:
  "step_over_bps K IP (t # ts) bs st w =
     (if bp_at (IP (regs t)) bs then
        if fst (ptrace_singlestep K (tid t) w) \<noteq> 0 then Inl (snd (ptrace_singlestep K (tid t) w))
        else if stored (snd (fst (waitpid K (tid t) 0 (snd (ptrace_singlestep K (tid t) w))))) st
                  = 4991
        then step_over_bps K IP ts bs
               (stored (snd (fst (waitpid K (tid t) 0 (snd (ptrace_singlestep K (tid t)
                    (snd (waitpid K (tid t) 0 (snd (ptrace_singlestep K (tid t) w)))))))))
                  (stored (snd (fst (waitpid K (tid t) 0
                    (snd (ptrace_singlestep K (tid t) w))))) st))
               (snd (waitpid K (tid t) 0 (snd (ptrace_singlestep K (tid t)
                    (snd (waitpid K (tid t) 0 (snd (ptrace_singlestep K (tid t) w))))))))
        else step_over_bps K IP ts bs
               (stored (snd (fst (waitpid K (tid t) 0 (snd (ptrace_singlestep K (tid t) w))))) st)
               (snd (waitpid K (tid t) 0 (snd (ptrace_singlestep K (tid t) w))))
      else step_over_bps K IP ts bs st w)"
  by (simp add: case_prod_beta)

declare step_over_bps.simps(2) [simp del]








subsection \<open>The step loop\<close>








section \<open>The examples, evaluated\<close>

lemmas request_defs =
  ptrace_setregs_def ptrace_getregs_def ptrace_singlestep_def ptrace_cont_def waitpid_def
  tgkill_def peekdata_def pokedata_def getregs_into_def set_regs_at_def
  stored_def stored_regs_def load_word_def store_word_def word_at_def

lemmas call_defs =
  register_thread_def unregister_thread_def register_breakpoint_def unregister_breakpoint_def
  disable_breakpoint_def singlestep_def step_until_def cont_all_and_set_bps_def
  wait_all_and_update_regs_def after_step_def step_over_bps_Cons

lemmas example_defs =
  scripted_def script0_def world0_def world1_def world2_def world5_def world6_def calls5_def
  world3_def calls3_def world7_def world8_def world9_def world10_def world12_def
  world11_def idle_def world40_def calls4_def world4_def
  int3_def WALL_def WNOHANG_def SIGSTOP_def

lemma world6_run: "do_calls scripted id int3 calls5 world5 = Some world6"
  by (simp add: calls5_def world6_def)

lemma world6_fields:
  "t_HEAD world6 = [\<lparr>tid = 3, regs = 0x400100\<rparr>, \<lparr>tid = 2, regs = 0x400100\<rparr>,
                    \<lparr>tid = 1, regs = 0x400100\<rparr>]"
  "b_HEAD world6 =
     [\<lparr>addr = 0x400120, instruction = 0x9090909090909090,
       patched_instruction = 0x90909090909090CC, enabled = False\<rparr>,
      \<lparr>addr = 0x400110, instruction = 0x9090909090909090,
       patched_instruction = 0x90909090909090CC, enabled = True\<rparr>]"
  "kern world6 = \<lparr>ips = [], cur_ip = 0x400100,
      waits = [(1, Some 1407), (3, Some 4991), (2, Some 4991), (4, Some 1407), (0, None)],
      running = [1, 2, 3], flushed = [(1, 0x400100), (2, 0x400100), (3, 0x400100)]\<rparr>"
  by (simp_all add: example_defs call_defs request_defs Let_def)

lemma world6_wait:
  "\<exists>w'. wait_all_and_update_regs scripted 7 world6 =
     Some (Some [\<lparr>st_tid = 4, status = 1407\<rparr>, \<lparr>st_tid = 2, status = 4991\<rparr>,
                 \<lparr>st_tid = 3, status = 4991\<rparr>, \<lparr>st_tid = 1, status = 1407\<rparr>], w')"
  by (simp add: wait_all_and_update_regs_def world6_fields waitpid_def scripted_def
      stop_others_step drain_unfold getregs_into_def ptrace_getregs_def tgkill_def stored_def
      set_regs_at_def WALL_def WNOHANG_def SIGSTOP_def word_sless_alt)




lemmas loop_eval =
  step_until_loop_unfold after_step_def example_defs request_defs word_sless_alt

lemma world10_runs:
  "\<exists>w'. step_until_loop scripted id 1 0 0x4000F0 3 0 world10 = Some (0, 3, w') \<and>
      t_HEAD w' = [\<lparr>tid = 1, regs = 0x4000E6\<rparr>] \<and>
      length (filter is_singlestep (trace w')) = 6"
  by (simp add: loop_eval)

lemma world10_first:
  "fst (ptrace_singlestep scripted 1 world10) = 0"
  "t_HEAD (after_step scripted 1 0 world10) = [\<lparr>tid = 1, regs = 0x4000E0\<rparr>]"
  "t_HEAD world10 = [\<lparr>tid = 1, regs = 0x4000E0\<rparr>]"
  by (simp_all add: after_step_def example_defs request_defs)











lemma world4_run: "do_calls scripted id int3 calls4 world40 = Some world4"
  by (simp add: calls4_def world4_def)

lemma world4_fields:
  "t_HEAD world4 = [\<lparr>tid = 1, regs = 0x400100\<rparr>]"
  "b_HEAD world4 =
     [\<lparr>addr = 0x400110, instruction = 0x909090909090CC90,
       patched_instruction = 0x909090909090CCCC, enabled = True\<rparr>,
      \<lparr>addr = 0x400111, instruction = 0x9090909090909090,
       patched_instruction = 0x90909090909090CC, enabled = True\<rparr>]"
  "kern world4 = \<lparr>ips = [], cur_ip = 0x400100, waits = [(1, Some 1407), (0, None)],
      running = [1], flushed = [(1, 0x400100)]\<rparr>"
  by (simp_all add: example_defs call_defs request_defs Let_def)

lemmas wait_eval =
  wait_all_and_update_regs_def waitpid_def scripted_def stop_others_step drain_unfold
  getregs_into_def ptrace_getregs_def tgkill_def stored_def set_regs_at_def WALL_def WNOHANG_def
  SIGSTOP_def word_sless_alt

lemma world4_wait:
  "wait_all_and_update_regs scripted 7 world4 =
     Some (Some [\<lparr>st_tid = 1, status = 1407\<rparr>], world41)"
  "b_HEAD world41 =
     [\<lparr>addr = 0x400110, instruction = 0x909090909090CC90,
       patched_instruction = 0x909090909090CCCC, enabled = True\<rparr>,
      \<lparr>addr = 0x400111, instruction = 0x9090909090909090,
       patched_instruction = 0x90909090909090CC, enabled = True\<rparr>]"
  by (simp_all add: world41_def world4_fields wait_eval)

lemma world41_word: "word_at 0x400110 world41 = 0x9090909090909090"
  apply (simp add: world41_def world4_fields wait_eval)
  apply (simp add: word_at_def pokedata_def)
  apply (simp add: example_defs call_defs request_defs Let_def)
  done

lemma world13_run: "do_calls scripted id int3 calls13 world40 = Some world13"
  by (simp add: calls13_def world13_def)

lemma world13_fields:
  "t_HEAD world13 = [\<lparr>tid = 1, regs = 0x400100\<rparr>]"
  "b_HEAD world13 =
     [\<lparr>addr = 0x400110, instruction = 0x9090909090909090,
       patched_instruction = 0x90909090909090CC, enabled = False\<rparr>]"
  "kern world13 = \<lparr>ips = [], cur_ip = 0x400100, waits = [(1, Some 1407), (0, None)],
      running = [1], flushed = [(1, 0x400100)]\<rparr>"
  by (simp_all add: world13_def example_defs call_defs request_defs Let_def)

lemma world13_wait:
  "wait_all_and_update_regs scripted 7 world13 =
     Some (Some [\<lparr>st_tid = 1, status = 1407\<rparr>], world14)"
  "b_HEAD world14 =
     [\<lparr>addr = 0x400110, instruction = 0x9090909090909090,
       patched_instruction = 0x90909090909090CC, enabled = False\<rparr>]"
  by (simp_all add: world14_def world13_fields wait_eval)

lemma world14_word: "word_at 0x400110 world14 = 0"
  apply (simp add: world14_def world13_fields wait_eval)
  apply (simp add: word_at_def pokedata_def)
  apply (simp add: world13_def example_defs call_defs request_defs Let_def)
  done

lemma world3_facts:
  "do_calls scripted id int3 calls3 world0 = Some world3"
  "wait_all_and_update_regs scripted 7 world3 =
     Some (None, world3\<lparr>trace := trace world3 @ [Waitpid (- 1) WALL (- 1) None]\<rparr>)"
  "b_HEAD world3 =
     [\<lparr>addr = 0x400110, instruction = 0x9090909090909090,
       patched_instruction = 0x90909090909090CC, enabled = True\<rparr>]"
  "word_at 0x400110 world3 = 0x90909090909090CC"
proof -
  have k: "kern world3 = \<lparr>ips = [], cur_ip = 0x400100, waits = [], running = [1],
             flushed = [(1, 0x400100)]\<rparr>"
    by (simp add: example_defs call_defs request_defs Let_def)
  show "wait_all_and_update_regs scripted 7 world3 =
     Some (None, world3\<lparr>trace := trace world3 @ [Waitpid (- 1) WALL (- 1) None]\<rparr>)"
    by (simp add: wait_all_and_update_regs_def waitpid_def k scripted_def)
  show "do_calls scripted id int3 calls3 world0 = Some world3"
    by (simp add: calls3_def world3_def)
  show "b_HEAD world3 =
     [\<lparr>addr = 0x400110, instruction = 0x9090909090909090,
       patched_instruction = 0x90909090909090CC, enabled = True\<rparr>]"
    "word_at 0x400110 world3 = 0x90909090909090CC"
    by (simp_all add: example_defs call_defs request_defs Let_def)
qed

section \<open>Properties of the engine and of the tables\<close>

text \<open>
  Claim C1. Start where address \<open>A\<close> has no record and install a breakpoint there. After
  any further calls that do not remove the record at \<open>A\<close> (installs and disables at \<open>A\<close>
  among them) the table holds exactly one record for \<open>A\<close>; its \<^verbatim>\<open>instruction\<close> is the
  word that was in tracee memory at \<open>A\<close> before the first install and its
  \<^verbatim>\<open>patched_instruction\<close> is \<^verbatim>\<open>INSTALL_BREAKPOINT\<close> of that word. One more install at
  \<open>A\<close> sets the \<^verbatim>\<open>enabled\<close> flag of that record and changes nothing else in the table.
\<close>

theorem reinstall_keeps_first_words:
  assumes "A \<notin> addr ` set (b_HEAD w)"
    and "Unregister_breakpoint A \<notin> set cs"
    and "do_calls K IP IB (Register_breakpoint p A # cs) w = Some w'"
  shows "(\<exists>en. filter (\<lambda>b. addr b = A) (b_HEAD w') =
            [\<lparr>addr = A, instruction = word_at A w, patched_instruction = IB (word_at A w),
              enabled = en\<rparr>]) \<and>
         b_HEAD (register_breakpoint IB q A w') =
           map (\<lambda>b. if addr b = A then b\<lparr>enabled := True\<rparr> else b) (b_HEAD w')"
proof -
  from assms(3) have run: "do_calls K IP IB cs (register_breakpoint IB p A w) = Some w'"
    by simp
  from assms(1) have "the_record IB A (word_at A w) (b_HEAD (register_breakpoint IB p A w))"
    by (auto simp: register_breakpoint_fresh the_record_def filter_empty_conv)
  from do_calls_the_record [OF this assms(2) run]
  have rec: "the_record IB A (word_at A w) (b_HEAD w')" .
  from rec register_breakpoint_again [OF rec, of IB q] show ?thesis
    by (simp add: the_record_def)
qed

text \<open>The statement of C1 for install, disable, install at \<^verbatim>\<open>0x400110\<close>.\<close>

theorem reinstall_keeps_first_words_witness:
  "0x400110 \<notin> addr ` set (b_HEAD world1) \<and>
   Unregister_breakpoint 0x400110 \<notin>
     set [Disable_breakpoint 7 0x400110, Register_breakpoint 7 0x400110] \<and>
   word_at 0x400110 world1 = 0x9090909090909090 \<and>
   (\<exists>w'. do_calls scripted id int3
       [Register_breakpoint 7 0x400110, Disable_breakpoint 7 0x400110,
        Register_breakpoint 7 0x400110] world1 = Some w' \<and>
     (\<exists>en. filter (\<lambda>b. addr b = 0x400110) (b_HEAD w') =
        [\<lparr>addr = 0x400110, instruction = 0x9090909090909090,
          patched_instruction = 0x90909090909090CC, enabled = en\<rparr>]) \<and>
     b_HEAD (register_breakpoint int3 9 0x400110 w') =
       map (\<lambda>b. if addr b = 0x400110 then b\<lparr>enabled := True\<rparr> else b) (b_HEAD w'))"
proof -
  have h1: "0x400110 \<notin> addr ` set (b_HEAD world1)"
    by (simp add: world1_def world0_def)
  have h2: "Unregister_breakpoint 0x400110 \<notin>
     set [Disable_breakpoint 7 0x400110, Register_breakpoint 7 0x400110]"
    by simp
  obtain w' where h3: "do_calls scripted id int3
       (Register_breakpoint 7 0x400110 #
        [Disable_breakpoint 7 0x400110, Register_breakpoint 7 0x400110]) world1 = Some w'"
    by simp
  have v: "word_at 0x400110 world1 = 0x9090909090909090"
    "int3 0x9090909090909090 = 0x90909090909090CC"
    by (simp_all add: world1_def world0_def int3_def word_at_def load_word_def)
  from reinstall_keeps_first_words [OF h1 h2 h3, of 9] h1 h2 h3 v show ?thesis
    by auto
qed







text \<open>
  Claim C4, amended. Start with an empty breakpoint table and make any calls that install
  breakpoints only at addresses of a list \<open>as\<close>, any two of which are at least eight
  bytes apart, and that call \<^verbatim>\<open>ptrace_pokedata\<close> only at least eight bytes away from all
  of them. If \<^verbatim>\<open>wait_all_and_update_regs\<close> then returns a list (its first \<^verbatim>\<open>waitpid\<close>
  did not fail), the tracee-memory word at the address of every enabled record is the
  record's \<^verbatim>\<open>instruction\<close> and the word at the address of every disabled record is the
  record's \<^verbatim>\<open>patched_instruction\<close>; the table is unchanged, and the words the call has
  poked are the \<^verbatim>\<open>instruction\<close> words of the enabled records, one each in list order,
  and no other.
\<close>

theorem memory_at_rest_after_wait:
  assumes "b_HEAD w0 = []" and "spaced as" and "list_all (call_ok as) cs"
    and "do_calls K IP IB cs w0 = Some w"
    and "wait_all_and_update_regs K p w = Some (Some l, w')"
  shows "list_all (\<lambda>b. word_at (addr b) w' =
                     (if enabled b then instruction b else patched_instruction b)) (b_HEAD w') \<and>
         b_HEAD w' = b_HEAD w \<and>
         filter is_poke (sent w w') =
           map (\<lambda>b. PokeData p (addr b) (instruction b)) (filter enabled (b_HEAD w))"
proof -
  from assms(1) have "bp_inv as w0" by (simp add: bp_inv_def)
  from do_calls_bp_inv [OF this assms(2,3,4)] have inv: "bp_inv as w" .
  have "do_call K IP IB (Wait_all_and_update_regs p) w = Some w'"
    using assms(5) by simp
  from do_call_bp_inv [OF inv assms(2) _ this] have inv': "bp_inv as w'" by simp
  from wait_all_success [OF assms(5)] obtain prim probes drained fin w3 where
    d: "list_all probe_request probes" "list_all drain_request drained" "drain_end fin"
       "trace w3 = trace w @ prim # probes @ drained @ [fin]"
       "b_HEAD w3 = b_HEAD w" "memory w3 = memory w"
       "w' = restore_bps p (b_HEAD w3) (update_regs K (t_HEAD w3) 0 w3)"
       "\<exists>r s. prim = Waitpid (- 1) WALL r s \<and> r \<noteq> - 1"
    by blast
  have bh: "b_HEAD w' = b_HEAD w" by (simp add: d restore_bps_poke_all)
  let ?xs = "map (\<lambda>b. (addr b, instruction b)) (filter enabled (b_HEAD w))"
  have mem: "memory w' = memory (poke_all p ?xs w)"
    unfolding d(7) restore_bps_poke_all d(5)
    by (rule poke_all_memory_cong) (simp add: d(6))
  from bp_invD(1) [OF inv] have dist: "distinct (map fst ?xs)"
    by (simp add: comp_def distinct_map_filter)
  have en: "word_at (addr b) w' = instruction b" if "b \<in> set (b_HEAD w)" "enabled b" for b
  proof -
    from that have m: "(addr b, instruction b) \<in> set ?xs" by auto
    have "fst z = addr b \<or> apart (fst z) (addr b)" if "z \<in> set ?xs" for z
    proof -
      from that obtain y where y: "y \<in> set (b_HEAD w)" "fst z = addr y" by auto
      from spaced_apart [OF assms(2) bp_invD(2) [OF inv y(1)] bp_invD(2) [OF inv \<open>b \<in> set (b_HEAD w)\<close>]]
        y(2) show ?thesis by auto
    qed
    then have "list_all (\<lambda>z. fst z = addr b \<or> apart (fst z) (addr b)) ?xs"
      unfolding list_all_iff by blast
    from poke_all_word_at [OF dist this m, of p w] mem show ?thesis
      by (simp add: word_at_def)
  qed
  have dis: "word_at (addr b) w' = patched_instruction b"
    if "b \<in> set (b_HEAD w)" "\<not> enabled b" for b
    using bp_invD(3) [OF inv', of b] that bh by simp
  have "list_all (\<lambda>b. word_at (addr b) w' =
          (if enabled b then instruction b else patched_instruction b)) (b_HEAD w')"
    unfolding bh list_all_iff using en dis by auto
  moreover have "trace w' = trace w @ (prim # probes @ drained @ [fin]) @
      map (\<lambda>t. GetRegs (tid t)) (t_HEAD w3) @
      map (\<lambda>b. PokeData p (addr b) (instruction b)) (filter enabled (b_HEAD w))"
    by (simp add: d(4,5,7) restore_bps_poke_all comp_def)
  then have "filter is_poke (sent w w') =
      map (\<lambda>b. PokeData p (addr b) (instruction b)) (filter enabled (b_HEAD w))"
    using d(1,2,3,8) no_poke_probe [OF d(1)] no_poke_drain [OF d(2)] no_poke_end [OF d(3)]
    by (auto simp add: sent_def filter_poke_getregs filter_poke_pokes)
  ultimately show ?thesis using bh by simp
qed

text \<open>The statement of C4, amended, in the example with three threads.\<close>

theorem memory_at_rest_after_wait_witness:
  "b_HEAD world5 = [] \<and> spaced [0x400110, 0x400120] \<and>
   list_all (call_ok [0x400110, 0x400120]) calls5 \<and>
   do_calls scripted id int3 calls5 world5 = Some world6 \<and>
   (\<exists>l w'. wait_all_and_update_regs scripted 7 world6 = Some (Some l, w') \<and>
      list_all (\<lambda>b. word_at (addr b) w' =
                  (if enabled b then instruction b else patched_instruction b)) (b_HEAD w') \<and>
      b_HEAD w' = b_HEAD world6 \<and>
      filter is_poke (sent world6 w') = [PokeData 7 0x400110 0x9090909090909090] \<and>
      word_at 0x400110 w' = 0x9090909090909090 \<and> word_at 0x400120 w' = 0x90909090909090CC)"
proof -
  have h1: "b_HEAD world5 = []" by (simp add: world5_def world0_def)
  have h2: "spaced [0x400110, 0x400120]" by (simp add: spaced_def apart_def)
  have h3: "list_all (call_ok [0x400110, 0x400120]) calls5" by (simp add: calls5_def)
  from world6_wait obtain l w' where
    h5: "wait_all_and_update_regs scripted 7 world6 = Some (Some l, w')" by blast
  from memory_at_rest_after_wait [OF h1 h2 h3 world6_run h5] h1 h2 h3 world6_run h5
  show ?thesis
    by (auto simp: world6_fields)
qed

text \<open>
  Claim C4 as stated fails in three ways. When the first \<^verbatim>\<open>waitpid\<close> fails, the call
  returns \<^verbatim>\<open>NULL\<close> at line 301, before the loop of lines 348-353, and the trap of the
  enabled record at \<^verbatim>\<open>0x400110\<close> is still in tracee memory. When breakpoints are installed
  at \<^verbatim>\<open>0x400111\<close> and then at \<^verbatim>\<open>0x400110\<close>, the second record keeps a word that holds
  the trap byte of the first, and after the call has written both \<^verbatim>\<open>instruction\<close> words
  the word at \<^verbatim>\<open>0x400110\<close> is not the one of its record. When the debugger pokes a word
  at the address of a disabled record, that word is still there after the call.
\<close>

theorem memory_not_at_rest_after_wait:
  "do_calls scripted id int3 calls3 world0 = Some world3 \<and>
   wait_all_and_update_regs scripted 7 world3 =
     Some (None, world3\<lparr>trace := trace world3 @ [Waitpid (- 1) WALL (- 1) None]\<rparr>) \<and>
   b_HEAD world3 =
     [\<lparr>addr = 0x400110, instruction = 0x9090909090909090,
       patched_instruction = 0x90909090909090CC, enabled = True\<rparr>] \<and>
   word_at 0x400110 world3 = 0x90909090909090CC \<and>
   do_calls scripted id int3 calls4 world40 = Some world4 \<and>
   wait_all_and_update_regs scripted 7 world4 =
     Some (Some [\<lparr>st_tid = 1, status = 1407\<rparr>], world41) \<and>
   b_HEAD world41 =
     [\<lparr>addr = 0x400110, instruction = 0x909090909090CC90,
       patched_instruction = 0x909090909090CCCC, enabled = True\<rparr>,
      \<lparr>addr = 0x400111, instruction = 0x9090909090909090,
       patched_instruction = 0x90909090909090CC, enabled = True\<rparr>] \<and>
   word_at 0x400110 world41 = 0x9090909090909090 \<and>
   do_calls scripted id int3 calls13 world40 = Some world13 \<and>
   wait_all_and_update_regs scripted 7 world13 =
     Some (Some [\<lparr>st_tid = 1, status = 1407\<rparr>], world14) \<and>
   b_HEAD world14 =
     [\<lparr>addr = 0x400110, instruction = 0x9090909090909090,
       patched_instruction = 0x90909090909090CC, enabled = False\<rparr>] \<and>
   word_at 0x400110 world14 = 0"
  using world3_facts world4_run world4_wait world41_word world13_run world13_wait world14_word
  by simp

text \<open>
  Claim C5. When \<open>b\<close> is the first record at address \<open>a\<close>, \<^verbatim>\<open>disable_breakpoint\<close>
  clears its \<^verbatim>\<open>enabled\<close> flag, writes its \<^verbatim>\<open>patched_instruction\<close> to tracee memory at
  \<open>a\<close> with one \<^verbatim>\<open>PTRACE_POKEDATA\<close>, and changes nothing else: the stored words
  and all other records stay as they are.
\<close>

theorem disable_breakpoint_pokes_patched:
  assumes "b_HEAD w = pre @ b # post" and "\<forall>x \<in> set pre. addr x \<noteq> a" and "addr b = a"
  shows "disable_breakpoint p a w =
           w\<lparr>b_HEAD := pre @ b\<lparr>enabled := False\<rparr> # post,
             memory := store_word (memory w) a (patched_instruction b),
             trace := trace w @ [PokeData p a (patched_instruction b)]\<rparr>"
  using disable_first_split [OF assms(2,3), of post] assms(1)
  by (simp add: disable_breakpoint_def pokedata_def)

text \<open>The statement of C5 at the second record of the example table.\<close>

theorem disable_breakpoint_pokes_patched_witness:
  "b_HEAD world2 = [hd (b_HEAD world2)] @ (b_HEAD world2 ! 1) # [] \<and>
   addr (hd (b_HEAD world2)) \<noteq> 0x400110 \<and>
   addr (b_HEAD world2 ! 1) = 0x400110 \<and>
   b_HEAD (disable_breakpoint 7 0x400110 world2) =
     [\<lparr>addr = 0x400120, instruction = 0x9090909090909090,
       patched_instruction = 0x90909090909090CC, enabled = True\<rparr>,
      \<lparr>addr = 0x400110, instruction = 0x9090909090909090,
       patched_instruction = 0x90909090909090CC, enabled = False\<rparr>] \<and>
   word_at 0x400110 (disable_breakpoint 7 0x400110 world2) = 0x90909090909090CC \<and>
   word_at 0x400120 (disable_breakpoint 7 0x400110 world2) = 0x9090909090909090 \<and>
   trace (disable_breakpoint 7 0x400110 world2) = [PokeData 7 0x400110 0x90909090909090CC]"
proof -
  have h: "b_HEAD world2 = [hd (b_HEAD world2)] @ (b_HEAD world2 ! 1) # []"
    "\<forall>x \<in> set [hd (b_HEAD world2)]. addr x \<noteq> 0x400110"
    "addr (b_HEAD world2 ! 1) = 0x400110"
    by (simp_all add: world2_def world1_def world0_def)
  show ?thesis
    using h by (simp add: disable_breakpoint_pokes_patched [OF h, of 7])
      (simp add: world2_def world1_def world0_def word_at_def load_word_def store_word_def)
qed

text \<open>
  Claim C6. One iteration of the step loop whose \<^verbatim>\<open>PTRACE_SINGLESTEP\<close> succeeded: if
  the instruction pointer read back equals the target, the loop returns 0 with the
  counter as it was, also when the pointer has not moved; otherwise, if it equals the
  pointer cached before the step, the loop goes on with the same counter; otherwise it
  goes on with the counter plus one.
\<close>

theorem step_until_iteration:
  assumes "m = - 1 \<or> c <s m" and "fst (ptrace_singlestep K x w) = 0"
  shows "step_until_loop K IP x i a m c w =
     (if IP (regs (t_HEAD (after_step K x i w) ! i)) = a
      then Some (0, c, after_step K x i w)
      else if IP (regs (t_HEAD (after_step K x i w) ! i)) = IP (regs (t_HEAD w ! i))
           then step_until_loop K IP x i a m c (after_step K x i w)
           else step_until_loop K IP x i a m (c + 1) (after_step K x i w))"
  using assms by (subst step_until_loop_unfold) auto

text \<open>
  The statement of C6 on a thread that stays where it is at every other step: the first
  step is not counted, a target equal to the unchanged pointer ends the loop, and three
  counted steps take six single-steps.
\<close>

theorem step_until_iteration_witness:
  "((3 :: c_int) = - 1 \<or> (0 :: c_int) <s 3) \<and>
   fst (ptrace_singlestep scripted 1 world10) = 0 \<and>
   step_until_loop scripted id 1 0 0x4000F0 3 0 world10 =
     step_until_loop scripted id 1 0 0x4000F0 3 0 (after_step scripted 1 0 world10) \<and>
   step_until_loop scripted id 1 0 0x4000E0 3 0 world10 =
     Some (0, 0, after_step scripted 1 0 world10) \<and>
   (\<exists>w'. step_until_loop scripted id 1 0 0x4000F0 3 0 world10 = Some (0, 3, w') \<and>
      t_HEAD w' = [\<lparr>tid = 1, regs = 0x4000E6\<rparr>] \<and>
      length (filter is_singlestep (trace w')) = 6)"
proof -
  have g: "(3 :: c_int) = - 1 \<or> (0 :: c_int) <s 3" by (simp add: word_sless_alt)
  from step_until_iteration [OF g world10_first(1), of id 0 "0x4000F0"]
    step_until_iteration [OF g world10_first(1), of id 0 "0x4000E0"]
    g world10_first world10_runs
  show ?thesis by simp
qed

text \<open>
  Claim C7. When \<^verbatim>\<open>wait_all_and_update_regs\<close> returns a list, the requests it has sent
  are the first \<^verbatim>\<open>waitpid(-1, _, __WALL)\<close>, then those of the probe loop, then the
  non-blocking \<^verbatim>\<open>waitpid\<close> calls of the drain loop that returned a positive pid, then
  the one that ended the drain, and no \<^verbatim>\<open>waitpid\<close> after it. The list reports these
  calls newest first: the drained events in reverse order, then the events of the probe
  loop in reverse order, and the first event last.
\<close>

theorem wait_all_newest_first:
  assumes "wait_all_and_update_regs K p w = Some (Some l, w')"
  shows "\<exists>prim probes drained fin rest.
      sent w w' = prim # probes @ drained @ fin # rest \<and>
      (\<exists>r s. prim = Waitpid (- 1) WALL r s) \<and>
      list_all probe_request probes \<and> list_all drain_request drained \<and> drain_end fin \<and>
      filter is_wait rest = [] \<and>
      list_all2 reports l (rev drained @ rev (filter is_wait probes) @ [prim])"
proof -
  from wait_all_success [OF assms] obtain prim probes drained fin w3 where
    d: "list_all probe_request probes" "list_all drain_request drained" "drain_end fin"
       "trace w3 = trace w @ prim # probes @ drained @ [fin]"
       "w' = restore_bps p (b_HEAD w3) (update_regs K (t_HEAD w3) 0 w3)"
       "\<exists>r s. prim = Waitpid (- 1) WALL r s \<and> r \<noteq> - 1"
       "list_all2 reports l (rev drained @ rev (filter is_wait probes) @ [prim])"
    by blast
  let ?rest = "map (\<lambda>t. GetRegs (tid t)) (t_HEAD w3) @
      map (\<lambda>b. PokeData p (addr b) (instruction b)) (filter enabled (b_HEAD w3))"
  have "trace w' = trace w @ prim # probes @ drained @ fin # ?rest"
    by (simp add: d(4,5) restore_bps_poke_all comp_def)
  then have "sent w w' = prim # probes @ drained @ fin # ?rest" by (simp add: sent_def)
  moreover have "filter is_wait ?rest = []"
    by (simp add: filter_wait_getregs filter_wait_pokes)
  ultimately show ?thesis using d(1,2,3,6,7) by blast
qed

text \<open>The statement of C7 in the example with three threads and one drained event.\<close>

theorem wait_all_newest_first_witness:
  "\<exists>w'. wait_all_and_update_regs scripted 7 world6 =
      Some (Some [\<lparr>st_tid = 4, status = 1407\<rparr>, \<lparr>st_tid = 2, status = 4991\<rparr>,
                  \<lparr>st_tid = 3, status = 4991\<rparr>, \<lparr>st_tid = 1, status = 1407\<rparr>], w') \<and>
    (\<exists>prim probes drained fin rest.
      sent world6 w' = prim # probes @ drained @ fin # rest \<and>
      (\<exists>r s. prim = Waitpid (- 1) WALL r s) \<and>
      list_all probe_request probes \<and> list_all drain_request drained \<and> drain_end fin \<and>
      filter is_wait rest = [] \<and>
      list_all2 reports [\<lparr>st_tid = 4, status = 1407\<rparr>, \<lparr>st_tid = 2, status = 4991\<rparr>,
                  \<lparr>st_tid = 3, status = 4991\<rparr>, \<lparr>st_tid = 1, status = 1407\<rparr>]
        (rev drained @ rev (filter is_wait probes) @ [prim]))"
proof -
  from world6_wait obtain w' where
    h: "wait_all_and_update_regs scripted 7 world6 =
      Some (Some [\<lparr>st_tid = 4, status = 1407\<rparr>, \<lparr>st_tid = 2, status = 4991\<rparr>,
                  \<lparr>st_tid = 3, status = 4991\<rparr>, \<lparr>st_tid = 1, status = 1407\<rparr>], w')"
    by blast
  from wait_all_newest_first [OF h] h show ?thesis by blast
qed

text \<open>
  Claim C8. When the first \<^verbatim>\<open>waitpid(-1, _, __WALL)\<close> returns -1,
  \<^verbatim>\<open>wait_all_and_update_regs\<close> returns \<^verbatim>\<open>NULL\<close> and that \<^verbatim>\<open>waitpid\<close> is the only
  request it has sent: no signal, no \<^verbatim>\<open>PTRACE_GETREGS\<close>, no \<^verbatim>\<open>PTRACE_POKEDATA\<close>;
  the tables and tracee memory are unchanged.
\<close>

theorem wait_all_primary_failure:
  assumes "fst (fst (k_waitpid K (- 1) WALL (kern w))) = - 1"
  shows "wait_all_and_update_regs K p w =
           Some (None, w\<lparr>kern := snd (k_waitpid K (- 1) WALL (kern w)),
                        trace := trace w @
                          [Waitpid (- 1) WALL (- 1) (snd (fst (k_waitpid K (- 1) WALL (kern w))))]\<rparr>)"
  using assms by (simp add: wait_all_and_update_regs_def waitpid_def case_prod_beta)

text \<open>The statement of C8 on a kernel with nothing to report.\<close>

theorem wait_all_primary_failure_witness:
  "fst (fst (k_waitpid scripted (- 1) WALL (kern world2))) = - 1 \<and>
   wait_all_and_update_regs scripted 7 world2 =
     Some (None, world2\<lparr>trace := [Waitpid (- 1) WALL (- 1) None]\<rparr>)"
proof -
  have h: "fst (fst (k_waitpid scripted (- 1) WALL (kern world2))) = - 1"
    by (simp add: scripted_def world2_def world1_def world0_def script0_def)
  show ?thesis
    using h wait_all_primary_failure [OF h, of 7]
    by (simp add: scripted_def world2_def world1_def world0_def script0_def)
qed

text \<open>
  Claim C9. When \<open>x\<close> is the tid of no record of the thread table,
  \<^verbatim>\<open>step_until\<close> returns -1, has sent no \<^verbatim>\<open>PTRACE_SINGLESTEP\<close>, and leaves the
  thread table, the breakpoint table and tracee memory as they were.
\<close>

theorem step_until_unknown_thread:
  assumes "x \<notin> tid ` set (t_HEAD w)"
  shows "\<exists>w'. step_until K IP x a n w = Some (- 1, w') \<and> t_HEAD w' = t_HEAD w \<and>
           b_HEAD w' = b_HEAD w \<and> memory w' = memory w \<and>
           filter is_singlestep (sent w w') = []"
proof -
  have "filter is_singlestep (map (\<lambda>t. SetRegs (tid t) (regs t)) ts) = []" for ts :: "'b thread list"
    by (induction ts) simp_all
  then show ?thesis
    using step_until_absent [OF assms, of K IP a n] by simp
qed

text \<open>The statement of C9 at thread 5 of the two-thread example.\<close>

theorem step_until_unknown_thread_witness:
  "5 \<notin> tid ` set (t_HEAD world2) \<and>
   (\<exists>w'. step_until scripted id 5 0x400110 3 world2 = Some (- 1, w') \<and>
      t_HEAD w' = t_HEAD world2 \<and> b_HEAD w' = b_HEAD world2 \<and> memory w' = memory world2 \<and>
      filter is_singlestep (sent world2 w') = [])"
  using step_until_unknown_thread [of 5 world2 scripted id "0x400110" 3]
  by (simp add: world2_def world1_def world0_def)

text \<open>
  Claim C10. The flush comes before the lookup: the call of \<^verbatim>\<open>step_until\<close> that
  fails because \<open>x\<close> is not registered has sent one \<^verbatim>\<open>PTRACE_SETREGS\<close> per
  registered thread, in list order, with the cached registers, and the kernel is in the
  state these requests lead to.
\<close>

theorem step_until_flushes_before_lookup:
  assumes "x \<notin> tid ` set (t_HEAD w)"
  shows "\<exists>w'. step_until K IP x a n w = Some (- 1, w') \<and>
           sent w w' = map (\<lambda>t. SetRegs (tid t) (regs t)) (t_HEAD w) \<and>
           kern w' = foldl (\<lambda>k t. snd (k_setregs K (tid t) (regs t) k)) (kern w) (t_HEAD w)"
  using step_until_absent [OF assms, of K IP a n] by simp

text \<open>The statement of C10 at thread 5: both registered threads were flushed.\<close>

theorem step_until_flushes_before_lookup_witness:
  "5 \<notin> tid ` set (t_HEAD world1) \<and>
   (\<exists>w'. step_until scripted id 5 0x400110 3 world1 = Some (- 1, w') \<and>
      sent world1 w' = [SetRegs 2 0x400100, SetRegs 1 0x400108] \<and>
      flushed (kern w') = [(1, 0x400108), (2, 0x400100)])"
proof -
  have h: "5 \<notin> tid ` set (t_HEAD world1)"
    by (simp add: world1_def world0_def)
  from step_until_flushes_before_lookup [OF h, of scripted id "0x400110" 3]
  obtain w' where "step_until scripted id 5 0x400110 3 world1 = Some (- 1, w')"
    and "sent world1 w' = map (\<lambda>t. SetRegs (tid t) (regs t)) (t_HEAD world1)"
    and "kern w' = foldl (\<lambda>k t. snd (k_setregs scripted (tid t) (regs t) k)) (kern world1)
                    (t_HEAD world1)"
    by blast
  then show ?thesis
    using h by (auto simp add: world1_def world0_def scripted_def script0_def)
qed

end
